theory Spec2Isabelle
  imports Complex_Main
begin

section \<open>Shared vocabulary\<close>

text \<open>
  Audio data (a \<open>Blob\<close> in the browser, a \<open>Buffer\<close> on the server) is a list of bytes;
  its \<open>size\<close> / \<open>length\<close> is the length of the list, and \<open>new Blob(chunks)\<close> and
  \<open>Buffer.concat(chunks)\<close> are \<open>concat\<close>.  Times are the milliseconds \<open>Date.now()\<close>
  returns.  A pending \<open>setTimeout\<close> is an entry of the event loop's timer list: its
  handle and the time at which it becomes due.  The event loop runs the callback of a
  timer once, when the timer is due and has not been cleared.
\<close>

type_synonym blob = "nat list"

definition newBlob :: "blob list \<Rightarrow> blob" where
  "newBlob chunks = concat chunks"

definition clearTimer :: "nat \<Rightarrow> (nat \<times> 'a) list \<Rightarrow> (nat \<times> 'a) list" where
  "clearTimer h ts = filter (\<lambda>e. fst e \<noteq> h) ts"

section \<open>The relay server (src/app/server.js)\<close>

text \<open>
  One WebSocket connection: the \<open>Client\<close> object, the connection's
  \<open>audioProcessingTimeout\<close> variable, the timers of the event loop that belong to the
  connection, and what an observer sees of it: the messages sent to the client, whether
  the client is still in the \<open>clients\<close> map, whether the socket was terminated, and the
  audio handed to \<open>processAudio\<close>.
\<close>

definition PING_INTERVAL :: int where
  "PING_INTERVAL = 30000"

definition AUDIO_CHUNK_TIMEOUT :: int where
  "AUDIO_CHUNK_TIMEOUT = 500"

definition MAX_BUFFER_SIZE :: nat where
  "MAX_BUFFER_SIZE = 1024 * 1024"

datatype out_message =
    Connected
  | TranscriptMsg string
  | ErrorMsg string
  | Pong
  | PingMsg

text \<open>
  An inbound message after \<open>JSON.parse\<close>: text that does not parse, an \<open>audio\<close> message
  (its data decoded from base64, or \<open>None\<close> when \<open>Buffer.from\<close> throws on it), a
  \<open>ping\<close>, or a message of any other type, which the \<open>switch\<close> ignores.
\<close>

datatype in_message =
    Unparsable
  | AudioMessage "blob option"
  | PingMessage
  | OtherMessage

datatype api_result = ApiOk string | ApiFailed

record connection =
  isAlive :: bool
  currentAudioBuffer :: "blob list"
  audioProcessingTimeout :: "nat option"
  pendingTimeouts :: "(nat \<times> int) list"
  nextTimeout :: nat
  sent :: "out_message list"
  inClients :: bool
  terminated :: bool
  processed :: "blob list"

definition on_connection :: connection where
  "on_connection =
     \<lparr>isAlive = True, currentAudioBuffer = [], audioProcessingTimeout = None,
      pendingTimeouts = [], nextTimeout = 1, sent = [Connected], inClients = True,
      terminated = False, processed = []\<rparr>"

definition ws_send :: "out_message \<Rightarrow> connection \<Rightarrow> connection" where
  "ws_send m c = c\<lparr>sent := sent c @ [m]\<rparr>"

definition totalSize :: "blob list \<Rightarrow> nat" where
  "totalSize bufs = foldl (\<lambda>acc chunk. acc + length chunk) 0 bufs"

text \<open>
  The body of the \<open>try\<close> block of the message handler.  The result says whether the
  body threw, together with the state it left behind: the push onto
  \<open>currentAudioBuffer\<close> happens before the size check throws.
\<close>

definition message_try :: "int \<Rightarrow> in_message \<Rightarrow> connection \<Rightarrow> bool \<times> connection" where
  "message_try now m c =
     (case m of
        Unparsable \<Rightarrow> (True, c)
      | AudioMessage None \<Rightarrow> (True, c)
      | AudioMessage (Some audioChunk) \<Rightarrow>
          (let c1 = c\<lparr>currentAudioBuffer := currentAudioBuffer c @ [audioChunk]\<rparr>
           in if totalSize (currentAudioBuffer c1) > MAX_BUFFER_SIZE then (True, c1)
              else
                (let c2 = (case audioProcessingTimeout c1 of
                             None \<Rightarrow> c1
                           | Some h \<Rightarrow> c1\<lparr>pendingTimeouts := clearTimer h (pendingTimeouts c1)\<rparr>)
                 in (False,
                     c2\<lparr>audioProcessingTimeout := Some (nextTimeout c2),
                        pendingTimeouts :=
                          pendingTimeouts c2 @ [(nextTimeout c2, now + AUDIO_CHUNK_TIMEOUT)],
                        nextTimeout := Suc (nextTimeout c2)\<rparr>)))
      | PingMessage \<Rightarrow> (False, ws_send Pong (c\<lparr>isAlive := True\<rparr>))
      | OtherMessage \<Rightarrow> (False, c))"

definition on_message :: "int \<Rightarrow> in_message \<Rightarrow> connection \<Rightarrow> connection" where
  "on_message now m c =
     (case message_try now m c of
        (True, c') \<Rightarrow> ws_send (ErrorMsg ''Failed to process message'') c'
      | (False, c') \<Rightarrow> c')"

text \<open>
  The callback of the processing timer with handle \<open>h\<close>, run by the event loop at time
  \<open>now\<close>; \<open>res\<close> is what \<open>processAudio\<close> returns for the combined buffer.  A timer that
  is not pending or not yet due does not run.
\<close>

definition on_timeout :: "int \<Rightarrow> nat \<Rightarrow> api_result \<Rightarrow> connection \<Rightarrow> connection" where
  "on_timeout now h res c =
     (if \<exists>d \<in> set (map snd (filter (\<lambda>e. fst e = h) (pendingTimeouts c))). d \<le> now then
        (let completeAudioBuffer = concat (currentAudioBuffer c);
             c1 = c\<lparr>pendingTimeouts := clearTimer h (pendingTimeouts c),
                    currentAudioBuffer := [],
                    processed := processed c @ [completeAudioBuffer]\<rparr>
         in case res of
              ApiOk t \<Rightarrow> ws_send (TranscriptMsg t) c1
            | ApiFailed \<Rightarrow> ws_send (ErrorMsg ''Failed to process audio'') c1)
      else c)"

definition on_close :: "connection \<Rightarrow> connection" where
  "on_close c = c\<lparr>inClients := False\<rparr>"

text \<open>One round of the liveness interval for this client.\<close>

definition ping_round :: "connection \<Rightarrow> connection" where
  "ping_round c =
     (if \<not> inClients c then c
      else if \<not> isAlive c then c\<lparr>terminated := True, inClients := False\<rparr>
      else ws_send PingMsg (c\<lparr>isAlive := False\<rparr>))"

section \<open>The browser's side: recorders and events\<close>

text \<open>
  A \<open>MediaRecorder\<close>: its \<open>state\<close> attribute (the code never pauses a recorder),
  whether \<open>stop()\<close> has been called and the \<open>stop\<close> event is still to be dispatched,
  and the start time captured by the handlers that were attached to it.  \<open>stop()\<close>
  sets the state to \<open>inactive\<close> at once and queues the final \<open>dataavailable\<close> and the
  \<open>stop\<close> event.  The recorders a component has created are kept in a list; a
  \<open>mediaRecorderRef\<close> holds an index into it.
\<close>

datatype recording_state = Inactive | Recording

record media_recorder =
  mr_state :: recording_state
  mr_stopping :: bool
  mr_startTime :: int

definition mr_started :: "int \<Rightarrow> media_recorder" where
  "mr_started t = \<lparr>mr_state = Recording, mr_stopping = False, mr_startTime = t\<rparr>"

definition mr_stop :: "media_recorder \<Rightarrow> media_recorder" where
  "mr_stop r = r\<lparr>mr_state := Inactive, mr_stopping := True\<rparr>"

definition mr_stopped :: "media_recorder \<Rightarrow> media_recorder" where
  "mr_stopped r = r\<lparr>mr_stopping := False\<rparr>"

text \<open>\<open>mediaRecorderRef.current?.state\<close>\<close>

definition current_state :: "media_recorder list \<Rightarrow> nat option \<Rightarrow> recording_state option" where
  "current_state recs ref =
     (case ref of
        None \<Rightarrow> None
      | Some i \<Rightarrow> if i < length recs then Some (mr_state (recs ! i)) else None)"

text \<open>A session is active while its recorder records or is being finalised.\<close>

definition active :: "media_recorder \<Rightarrow> bool" where
  "active r = (mr_state r = Recording \<or> mr_stopping r)"

text \<open>
  \<open>track.stop()\<close> on every track of the stream ends the stream: a recorder that is
  recording it becomes inactive, and its final \<open>dataavailable\<close> and its \<open>stop\<close> event
  are queued, as at \<open>stop()\<close>.
\<close>

definition tracksEnded :: "media_recorder list \<Rightarrow> media_recorder list" where
  "tracksEnded recs = map (\<lambda>m. if mr_state m = Recording then mr_stop m else m) recs"

text \<open>
  The \<open>transcript\<close> property of a parsed response body: a string, or \<open>undefined\<close> when
  the body has no such property.  A template literal and \<open>+\<close> turn \<open>undefined\<close> into
  the text \<open>undefined\<close>.
\<close>

datatype transcript_value = Text string | Undefined

definition toText :: "transcript_value \<Rightarrow> string" where
  "toText v = (case v of Text t \<Rightarrow> t | Undefined \<Rightarrow> ''undefined'')"

text \<open>
  What the transcription of one clip comes to: decoding the recorded audio fails,
  \<open>fetch\<close> rejects, the response is not \<open>ok\<close> (its status, in decimal, and its
  body), \<open>response.json()\<close> rejects, the response carries a transcript, or the
  response is \<open>ok\<close> and its body parses to a value without a \<open>transcript\<close> property.
\<close>

datatype outcome =
    DecodeFailed string
  | FetchRejected string
  | HttpError string string
  | JsonRejected string
  | Success string
  | NoTranscript

text \<open>\<open>data.transcript\<close>, when the request gets as far as \<open>const data = await response.json()\<close>.\<close>

fun data_transcript :: "outcome \<Rightarrow> transcript_value option" where
  "data_transcript (Success t) = Some (Text t)"
| "data_transcript NoTranscript = Some Undefined"
| "data_transcript _ = None"

text \<open>
  The updater handed to \<open>setTranscription\<close>:
  \<open>prev ? `${prev.transcript} ${data.transcript}` : data.transcript\<close>, where \<open>prev\<close> is
  \<open>null\<close> or the transcription accumulated so far.
\<close>

definition appended :: "transcript_value option \<Rightarrow> transcript_value \<Rightarrow> transcript_value" where
  "appended prev v =
     (case prev of
        None \<Rightarrow> v
      | Some p \<Rightarrow> Text (toText p @ '' '' @ toText v))"

text \<open>
  The callbacks the environment delivers to a component, each at a time \<open>Date.now()\<close>:
  a voice probability from Cobra, the start and stop of voice from the VAD library, a
  \<open>dataavailable\<close> or \<open>stop\<close> event of a recorder, a timer that is due, the buttons
  (with whether subscribing or unsubscribing succeeded), the unmount of the component,
  and the settling of the transcription request of a clip.
\<close>

datatype event =
    Probability rat
  | VoiceStart
  | VoiceStop
  | DataAvailable nat blob
  | RecorderStop nat
  | TimerFired nat
  | StartListening bool
  | StopListening bool
  | Unmount
  | Settled outcome

definition due :: "nat \<Rightarrow> int \<Rightarrow> (nat \<times> int) list \<Rightarrow> bool" where
  "due h now ts = (\<exists>e \<in> set ts. fst e = h \<and> snd e \<le> now)"

section \<open>VoiceDetector (src/app/page.tsx, first component)\<close>

definition VOICE_PROBABILITY_THRESHOLD_vd :: rat where
  "VOICE_PROBABILITY_THRESHOLD_vd = 2 / 10"

definition SILENCE_DURATION_THRESHOLD_vd :: int where
  "SILENCE_DURATION_THRESHOLD_vd = 1500"

definition MIN_RECORDING_DURATION_vd :: int where
  "MIN_RECORDING_DURATION_vd = 500"

record audio_clip =
  clip_id :: int
  clip_url :: blob
  clip_timestamp :: int
  clip_duration :: rat

text \<open>
  The refs and the React state the handlers read or that make up the result, the
  recorders and timers of the browser, and what the cleanup does to the outside
  (\<open>subscribed\<close>, \<open>tracksStopped\<close>, \<open>cobraReleased\<close>).  \<open>mimeSupported\<close> is the
  browser's answer to \<open>MediaRecorder.isTypeSupported\<close>.  The React state that is only
  rendered (\<open>isListening\<close>, \<open>isRecording\<close>, \<open>latestClip\<close>) is left out.  \<open>unmounted\<close>
  says that the component has unmounted: its handlers may still run, but React
  drops the state updates they make.
\<close>

record vd_state =
  isInitialized_vd :: bool
  isListeningRef_vd :: bool
  isRecordingRef_vd :: bool
  mediaRecorderRef_vd :: "nat option"
  audioChunksRef_vd :: "blob list"
  silenceTimeoutRef_vd :: "nat option"
  recordingStartTimeRef_vd :: "int option"
  streamRef_vd :: bool
  cobraRef_vd :: bool
  audioClips_vd :: "audio_clip list"
  error_vd :: "string option"
  recorders_vd :: "media_recorder list"
  timers_vd :: "(nat \<times> int) list"
  nextTimer_vd :: nat
  mimeSupported_vd :: bool
  subscribed_vd :: bool
  tracksStopped_vd :: bool
  cobraReleased_vd :: bool
  unmounted_vd :: bool

text \<open>The component after \<open>initializeVoiceDetector\<close> has succeeded.\<close>

definition initialized_vd :: vd_state where
  "initialized_vd =
     \<lparr>isInitialized_vd = True, isListeningRef_vd = False, isRecordingRef_vd = False,
      mediaRecorderRef_vd = None, audioChunksRef_vd = [], silenceTimeoutRef_vd = None,
      recordingStartTimeRef_vd = None, streamRef_vd = True, cobraRef_vd = True,
      audioClips_vd = [], error_vd = None, recorders_vd = [], timers_vd = [],
      nextTimer_vd = 1, mimeSupported_vd = True, subscribed_vd = False,
      tracksStopped_vd = False, cobraReleased_vd = False, unmounted_vd = False\<rparr>"

definition startRecording_vd :: "int \<Rightarrow> vd_state \<Rightarrow> vd_state" where
  "startRecording_vd now s =
     (if \<not> streamRef_vd s
         \<or> current_state (recorders_vd s) (mediaRecorderRef_vd s) = Some Recording
      then s
      else if \<not> mimeSupported_vd s then s\<lparr>error_vd := Some ''Failed to start recording''\<rparr>
      else s\<lparr>recorders_vd := recorders_vd s @ [mr_started now],
             mediaRecorderRef_vd := Some (length (recorders_vd s)),
             audioChunksRef_vd := [],
             recordingStartTimeRef_vd := Some now,
             isRecordingRef_vd := True\<rparr>)"

definition stopRecording_vd :: "vd_state \<Rightarrow> vd_state" where
  "stopRecording_vd s =
     (if current_state (recorders_vd s) (mediaRecorderRef_vd s) = Some Recording
      then s\<lparr>recorders_vd :=
               (recorders_vd s)[the (mediaRecorderRef_vd s) :=
                  mr_stop (recorders_vd s ! the (mediaRecorderRef_vd s))]\<rparr>
      else s)"

definition handleVoiceDetected_vd :: "int \<Rightarrow> vd_state \<Rightarrow> vd_state" where
  "handleVoiceDetected_vd now s =
     (let s1 = (case silenceTimeoutRef_vd s of
                  None \<Rightarrow> s
                | Some h \<Rightarrow> s\<lparr>timers_vd := clearTimer h (timers_vd s),
                              silenceTimeoutRef_vd := None\<rparr>)
      in if \<not> isRecordingRef_vd s1 \<and> isListeningRef_vd s1 \<and> streamRef_vd s1
         then startRecording_vd now s1
         else s1)"

definition handleSilenceDetected_vd :: "int \<Rightarrow> vd_state \<Rightarrow> vd_state" where
  "handleSilenceDetected_vd now s =
     (if silenceTimeoutRef_vd s = None \<and> isRecordingRef_vd s
      then s\<lparr>silenceTimeoutRef_vd := Some (nextTimer_vd s),
             timers_vd := timers_vd s @ [(nextTimer_vd s, now + SILENCE_DURATION_THRESHOLD_vd)],
             nextTimer_vd := Suc (nextTimer_vd s)\<rparr>
      else s)"

definition handleVoiceProbability_vd :: "int \<Rightarrow> rat \<Rightarrow> vd_state \<Rightarrow> vd_state" where
  "handleVoiceProbability_vd now probability s =
     (if probability \<ge> VOICE_PROBABILITY_THRESHOLD_vd
      then handleVoiceDetected_vd now s
      else handleSilenceDetected_vd now s)"

text \<open>The callback of the silence timer.\<close>

definition silenceTimeout_vd :: "vd_state \<Rightarrow> vd_state" where
  "silenceTimeout_vd s = (stopRecording_vd s)\<lparr>silenceTimeoutRef_vd := None\<rparr>"

definition ondataavailable_vd :: "blob \<Rightarrow> vd_state \<Rightarrow> vd_state" where
  "ondataavailable_vd b s =
     (if length b > 0 then s\<lparr>audioChunksRef_vd := audioChunksRef_vd s @ [b]\<rparr> else s)"

text \<open>
  \<open>mediaRecorder.onstop\<close> of the recorder that was started at \<open>startTime\<close> (a constant
  of the closure), run at time \<open>now\<close>.
\<close>

definition onstop_vd :: "int \<Rightarrow> int \<Rightarrow> vd_state \<Rightarrow> vd_state" where
  "onstop_vd startTime now s =
     (let endTime = now;
          duration = (if startTime \<noteq> 0 then endTime - startTime else 0);
          s1 = (if duration \<ge> MIN_RECORDING_DURATION_vd \<and> length (audioChunksRef_vd s) > 0
                then s\<lparr>audioClips_vd :=
                         \<lparr>clip_id = now, clip_url = newBlob (audioChunksRef_vd s),
                          clip_timestamp = now, clip_duration = of_int duration / 1000\<rparr>
                         # audioClips_vd s\<rparr>
                else s)
      in s1\<lparr>audioChunksRef_vd := [], isRecordingRef_vd := False,
            recordingStartTimeRef_vd := None\<rparr>)"

definition startListening_vd :: "bool \<Rightarrow> vd_state \<Rightarrow> vd_state" where
  "startListening_vd ok s =
     (if \<not> isInitialized_vd s \<or> \<not> cobraRef_vd s then s
      else if ok then s\<lparr>subscribed_vd := True, isListeningRef_vd := True, error_vd := None\<rparr>
      else s\<lparr>error_vd := Some ''Failed to start listening''\<rparr>)"

definition stopListening_vd :: "bool \<Rightarrow> vd_state \<Rightarrow> vd_state" where
  "stopListening_vd ok s =
     (if \<not> isListeningRef_vd s \<or> \<not> cobraRef_vd s then s
      else if ok then
        (let s1 = s\<lparr>subscribed_vd := False\<rparr>;
             s2 = (if isRecordingRef_vd s1 then stopRecording_vd s1 else s1)
         in s2\<lparr>isListeningRef_vd := False, error_vd := None\<rparr>)
      else s\<lparr>error_vd := Some ''Failed to stop listening''\<rparr>)"

text \<open>The cleanup of the effect, run when the component unmounts.\<close>

definition cleanup_vd :: "vd_state \<Rightarrow> vd_state" where
  "cleanup_vd s =
     (let s1 = (if isListeningRef_vd s \<and> cobraRef_vd s then s\<lparr>subscribed_vd := False\<rparr> else s);
          s2 = (if streamRef_vd s1
                then s1\<lparr>tracksStopped_vd := True, recorders_vd := tracksEnded (recorders_vd s1)\<rparr>
                else s1)
      in if cobraRef_vd s2 then s2\<lparr>cobraReleased_vd := True\<rparr> else s2)"

text \<open>
  What React keeps of a handler's work: \<open>s\<close> is the state before the handler ran and
  \<open>s'\<close> the state it computed.  Once the component has unmounted the updates of the
  React state (\<open>isInitialized\<close>, \<open>audioClips\<close>, \<open>error\<close>) are dropped; the refs, the
  recorders and the timers are changed all the same.
\<close>

definition commit_vd :: "vd_state \<Rightarrow> vd_state \<Rightarrow> vd_state" where
  "commit_vd s s' =
     (if unmounted_vd s
      then s'\<lparr>isInitialized_vd := isInitialized_vd s, audioClips_vd := audioClips_vd s,
             error_vd := error_vd s\<rparr>
      else s')"

text \<open>
  One callback.  The browser dispatches the \<open>stop\<close> event of a recorder only after
  \<open>stop()\<close> or the end of its stream, and runs a timer only when it is pending and
  due; the events this component does not subscribe to change nothing.
\<close>

definition step_vd :: "int \<times> event \<Rightarrow> vd_state \<Rightarrow> vd_state" where
  "step_vd te s =
     commit_vd s
       (case te of (now, ev) \<Rightarrow>
          (case ev of
             Probability p \<Rightarrow> handleVoiceProbability_vd now p s
           | DataAvailable r b \<Rightarrow> ondataavailable_vd b s
           | RecorderStop r \<Rightarrow>
               (if r < length (recorders_vd s) \<and> mr_stopping (recorders_vd s ! r)
                then onstop_vd (mr_startTime (recorders_vd s ! r)) now
                       (s\<lparr>recorders_vd := (recorders_vd s)[r := mr_stopped (recorders_vd s ! r)]\<rparr>)
                else s)
           | TimerFired h \<Rightarrow>
               (if due h now (timers_vd s)
                then silenceTimeout_vd (s\<lparr>timers_vd := clearTimer h (timers_vd s)\<rparr>)
                else s)
           | StartListening ok \<Rightarrow> startListening_vd ok s
           | StopListening ok \<Rightarrow> stopListening_vd ok s
           | Unmount \<Rightarrow> (cleanup_vd s)\<lparr>unmounted_vd := True\<rparr>
           | _ \<Rightarrow> s))"

definition run_vd :: "(int \<times> event) list \<Rightarrow> vd_state \<Rightarrow> vd_state" where
  "run_vd evs s = fold step_vd evs s"

section \<open>Index (src/app/speech2tex.tsx, first component)\<close>

definition PAUSE_THRESHOLD :: int where
  "PAUSE_THRESHOLD = 2000"

definition MIN_RECORDING_LENGTH :: int where
  "MIN_RECORDING_LENGTH = 500"

text \<open>
  The component's React state and refs, and the browser's recorders and timers.  The
  callbacks handed to the VAD are closures of the \<open>startListening\<close> that was called.
  \<open>useCallback\<close> renews \<open>startListening\<close> in the renders in which \<open>isRecording\<close> has
  changed, so the \<open>isRecording\<close> it holds is the current one, and the \<open>startRecording\<close>
  it holds is the one of such a render, with the \<open>isListening\<close> of that render:
  \<open>memoIsListening\<close> is that value.  \<open>seenIsRecording\<close> and \<open>seenIsListening\<close> are the
  values that the callbacks of the VAD hold, and \<open>onstopSeesListening\<close> gives, for each
  recorder (by its index), the \<open>isListening\<close> that its \<open>onstop\<close> handler holds; \<open>setIsRecording\<close> and
  \<open>setIsListening\<close> change the React state only.  \<open>unmounted\<close> says that the component
  has unmounted.
\<close>

record ix_state =
  isListening_ix :: bool
  isRecording_ix :: bool
  audioPackets_ix :: "blob list"
  mediaRecorderRef_ix :: "nat option"
  audioChunksRef_ix :: "blob list"
  streamRef_ix :: bool
  audioContextRef_ix :: bool
  vadRef_ix :: bool
  silenceStartRef_ix :: "int option"
  isLongPauseRef_ix :: bool
  pauseTimeoutRef_ix :: "nat option"
  currentRecordingStartTime_ix :: int
  memoIsListening_ix :: bool
  seenIsRecording_ix :: bool
  seenIsListening_ix :: bool
  onstopSeesListening_ix :: "nat \<Rightarrow> bool"
  recorders_ix :: "media_recorder list"
  timers_ix :: "(nat \<times> int) list"
  nextTimer_ix :: nat
  tracksStopped_ix :: bool
  vadDestroyed_ix :: bool
  unmounted_ix :: bool

definition mounted_ix :: ix_state where
  "mounted_ix =
     \<lparr>isListening_ix = False, isRecording_ix = False, audioPackets_ix = [],
      mediaRecorderRef_ix = None, audioChunksRef_ix = [], streamRef_ix = False,
      audioContextRef_ix = False, vadRef_ix = False, silenceStartRef_ix = None,
      isLongPauseRef_ix = False, pauseTimeoutRef_ix = None, currentRecordingStartTime_ix = 0,
      memoIsListening_ix = False, seenIsRecording_ix = False, seenIsListening_ix = False,
      onstopSeesListening_ix = (\<lambda>r. False), recorders_ix = [], timers_ix = [], nextTimer_ix = 1,
      tracksStopped_ix = False, vadDestroyed_ix = False, unmounted_ix = False\<rparr>"

definition stopRecording_ix :: "ix_state \<Rightarrow> ix_state" where
  "stopRecording_ix s =
     (if current_state (recorders_ix s) (mediaRecorderRef_ix s) = Some Recording
      then s\<lparr>recorders_ix :=
               (recorders_ix s)[the (mediaRecorderRef_ix s) :=
                  mr_stop (recorders_ix s ! the (mediaRecorderRef_ix s))],
             isRecording_ix := False\<rparr>
      else s)"

text \<open>\<open>!silenceStartRef.current\<close>: the ref is \<open>null\<close>, or holds the number 0.\<close>

definition handlePause_ix :: "int \<Rightarrow> ix_state \<Rightarrow> ix_state" where
  "handlePause_ix now s =
     (if silenceStartRef_ix s = None \<or> silenceStartRef_ix s = Some 0
      then s\<lparr>silenceStartRef_ix := Some now,
             pauseTimeoutRef_ix := Some (nextTimer_ix s),
             timers_ix := timers_ix s @ [(nextTimer_ix s, now + PAUSE_THRESHOLD)],
             nextTimer_ix := Suc (nextTimer_ix s)\<rparr>
      else s)"

text \<open>The callback of the pause timer.\<close>

definition pauseTimeout_ix :: "int \<Rightarrow> ix_state \<Rightarrow> ix_state" where
  "pauseTimeout_ix now s =
     (let pauseDuration = now - (case silenceStartRef_ix s of None \<Rightarrow> 0 | Some t \<Rightarrow> t)
      in if pauseDuration \<ge> PAUSE_THRESHOLD
         then stopRecording_ix (s\<lparr>isLongPauseRef_ix := True\<rparr>)
         else s)"

definition handleSpeech_ix :: "ix_state \<Rightarrow> ix_state" where
  "handleSpeech_ix s =
     (let s1 = (case pauseTimeoutRef_ix s of
                  None \<Rightarrow> s
                | Some h \<Rightarrow> s\<lparr>timers_ix := clearTimer h (timers_ix s)\<rparr>)
      in s1\<lparr>silenceStartRef_ix := None, isLongPauseRef_ix := False\<rparr>)"

text \<open>The \<open>startRecording\<close> that the callbacks of the VAD hold.\<close>

definition startRecording_ix :: "int \<Rightarrow> ix_state \<Rightarrow> ix_state" where
  "startRecording_ix now s =
     (if \<not> streamRef_ix s then s
      else s\<lparr>recorders_ix := recorders_ix s @ [mr_started now],
             onstopSeesListening_ix :=
               (onstopSeesListening_ix s)(length (recorders_ix s) := seenIsListening_ix s),
             mediaRecorderRef_ix := Some (length (recorders_ix s)),
             audioChunksRef_ix := [],
             currentRecordingStartTime_ix := now,
             isRecording_ix := True\<rparr>)"

definition onVoiceStart_ix :: "int \<Rightarrow> ix_state \<Rightarrow> ix_state" where
  "onVoiceStart_ix now s =
     (let s1 = handleSpeech_ix s
      in if \<not> seenIsRecording_ix s1 then startRecording_ix now s1 else s1)"

definition onVoiceStop_ix :: "int \<Rightarrow> ix_state \<Rightarrow> ix_state" where
  "onVoiceStop_ix now s = handlePause_ix now s"

definition saveRecording_ix :: "blob list \<Rightarrow> ix_state \<Rightarrow> ix_state" where
  "saveRecording_ix chunks s =
     (let audioBlob = newBlob chunks
      in if length audioBlob > 0 then s\<lparr>audioPackets_ix := audioPackets_ix s @ [audioBlob]\<rparr>
         else s)"

definition ondataavailable_ix :: "blob \<Rightarrow> ix_state \<Rightarrow> ix_state" where
  "ondataavailable_ix b s =
     (if length b > 0 then s\<lparr>audioChunksRef_ix := audioChunksRef_ix s @ [b]\<rparr> else s)"

text \<open>
  \<open>mediaRecorder.onstop\<close> of recorder \<open>r\<close>; the recorder it starts gets the same
  handlers.
\<close>

definition onstop_ix :: "nat \<Rightarrow> int \<Rightarrow> ix_state \<Rightarrow> ix_state" where
  "onstop_ix r now s =
     (let recordingDuration = now - currentRecordingStartTime_ix s;
          s1 = (if recordingDuration \<ge> MIN_RECORDING_LENGTH
                then saveRecording_ix (audioChunksRef_ix s) s else s)
      in if onstopSeesListening_ix s1 r \<and> \<not> isLongPauseRef_ix s1
         then s1\<lparr>recorders_ix := recorders_ix s1 @ [mr_started now],
                 onstopSeesListening_ix :=
                   (onstopSeesListening_ix s1)(length (recorders_ix s1) := onstopSeesListening_ix s1 r),
                 mediaRecorderRef_ix := Some (length (recorders_ix s1)),
                 audioChunksRef_ix := [],
                 currentRecordingStartTime_ix := now\<rparr>
         else s1)"

text \<open>
  \<open>startListening\<close>; \<open>ok\<close> says whether \<open>getUserMedia\<close> resolved.  The VAD it
  creates keeps the callbacks of the \<open>startListening\<close> that was called.
\<close>

definition startListening_ix :: "bool \<Rightarrow> ix_state \<Rightarrow> ix_state" where
  "startListening_ix ok s =
     (if ok
      then s\<lparr>streamRef_ix := True, audioContextRef_ix := True, vadRef_ix := True,
             seenIsRecording_ix := isRecording_ix s, seenIsListening_ix := memoIsListening_ix s,
             tracksStopped_ix := False, vadDestroyed_ix := False,
             isListening_ix := True\<rparr>
      else s)"

definition stopListening_ix :: "ix_state \<Rightarrow> ix_state" where
  "stopListening_ix s =
     (let s1 = (if streamRef_ix s
                then s\<lparr>tracksStopped_ix := True, recorders_ix := tracksEnded (recorders_ix s)\<rparr>
                else s);
          s2 = (if vadRef_ix s1 then s1\<lparr>vadDestroyed_ix := True\<rparr> else s1);
          s3 = (case pauseTimeoutRef_ix s2 of
                  None \<Rightarrow> s2
                | Some h \<Rightarrow> s2\<lparr>timers_ix := clearTimer h (timers_ix s2)\<rparr>)
      in s3\<lparr>isListening_ix := False, isRecording_ix := False\<rparr>)"

text \<open>
  What React keeps of a handler's work (\<open>s\<close> before the handler, \<open>s'\<close> after): once
  the component has unmounted the updates of the React state are dropped.
\<close>

definition commit_ix :: "ix_state \<Rightarrow> ix_state \<Rightarrow> ix_state" where
  "commit_ix s s' =
     (if unmounted_ix s
      then s'\<lparr>isListening_ix := isListening_ix s, isRecording_ix := isRecording_ix s,
             audioPackets_ix := audioPackets_ix s\<rparr>
      else s')"

text \<open>
  The effect that returns the cleanup has \<open>audioPackets\<close> among its dependencies:
  when \<open>onstop\<close> has saved a packet, React re-renders and runs the cleanup of the
  previous render, which calls \<open>stopListening\<close>.
\<close>

definition afterRender_ix :: "blob list \<Rightarrow> ix_state \<Rightarrow> ix_state" where
  "afterRender_ix packetsBefore s =
     (if audioPackets_ix s \<noteq> packetsBefore then stopListening_ix s else s)"

text \<open>
  A render in which \<open>isRecording\<close> has changed renews \<open>startListening\<close>, with the
  \<open>startRecording\<close> of that render.
\<close>

definition memoise_ix :: "bool \<Rightarrow> ix_state \<Rightarrow> ix_state" where
  "memoise_ix recordingBefore s =
     (if isRecording_ix s \<noteq> recordingBefore
      then s\<lparr>memoIsListening_ix := isListening_ix s\<rparr>
      else s)"

text \<open>
  One callback, and the renders that follow it.  The button calls \<open>startListening\<close>
  while \<open>isListening\<close> is false and \<open>stopListening\<close> while it is true.
\<close>

definition step_ix :: "int \<times> event \<Rightarrow> ix_state \<Rightarrow> ix_state" where
  "step_ix te s =
     memoise_ix (isRecording_ix s)
       (afterRender_ix (audioPackets_ix s)
          (commit_ix s
             (case te of (now, ev) \<Rightarrow>
                (case ev of
                   VoiceStart \<Rightarrow> onVoiceStart_ix now s
                 | VoiceStop \<Rightarrow> onVoiceStop_ix now s
                 | DataAvailable r b \<Rightarrow> ondataavailable_ix b s
                 | RecorderStop r \<Rightarrow>
                     (if r < length (recorders_ix s) \<and> mr_stopping (recorders_ix s ! r)
                      then onstop_ix r now
                             (s\<lparr>recorders_ix :=
                                  (recorders_ix s)[r := mr_stopped (recorders_ix s ! r)]\<rparr>)
                      else s)
                 | TimerFired h \<Rightarrow>
                     (if due h now (timers_ix s)
                      then pauseTimeout_ix now (s\<lparr>timers_ix := clearTimer h (timers_ix s)\<rparr>)
                      else s)
                 | StartListening ok \<Rightarrow>
                     (if isListening_ix s then s else startListening_ix ok s)
                 | StopListening ok \<Rightarrow>
                     (if isListening_ix s then stopListening_ix s else s)
                 | Unmount \<Rightarrow> (stopListening_ix s)\<lparr>unmounted_ix := True\<rparr>
                 | _ \<Rightarrow> s))))"

definition run_ix :: "(int \<times> event) list \<Rightarrow> ix_state \<Rightarrow> ix_state" where
  "run_ix evs s = fold step_ix evs s"

section \<open>RealtimeSpeechToText with the processing queue (first component of the unnamed file)\<close>

definition VOICE_PROBABILITY_THRESHOLD_q :: rat where
  "VOICE_PROBABILITY_THRESHOLD_q = 4 / 10"

definition SILENCE_DURATION_THRESHOLD_q :: int where
  "SILENCE_DURATION_THRESHOLD_q = 750"

definition MIN_RECORDING_DURATION_q :: int where
  "MIN_RECORDING_DURATION_q = 250"

definition MAX_RECORDING_DURATION_q :: int where
  "MAX_RECORDING_DURATION_q = 3000"

definition RECORDING_CHUNK_SIZE :: int where
  "RECORDING_CHUNK_SIZE = 250"

text \<open>
  The two timers of this component: the silence timer, and the timer set by
  \<open>startRecording\<close>, whose callback holds the recorder it was set for.
\<close>

datatype timer_kind = SilenceTimer | MaxDurationTimer nat

text \<open>
  The refs and the React state, the browser's recorders and timers, and the promise
  chain of \<open>processingQueueRef\<close>: the clips whose \<open>newProcessing\<close> is chained but has
  not started (\<open>chained\<close>), the clip whose \<open>newProcessing\<close> is suspended at an
  \<open>await\<close> (\<open>inflight\<close>), and, in order, the clips whose processing has started
  (\<open>started\<close>).  \<open>transcription\<close> is the \<open>transcript\<close> of the state, \<open>None\<close> for \<open>null\<close>; the
  timestamps, which every success replaces, are left out.  \<open>recorderOk\<close> says whether
  \<open>new MediaRecorder(stream, options)\<close> succeeds in this browser, and \<open>unmounted\<close>
  that the component has unmounted.
\<close>

record q_state =
  isInitialized_q :: bool
  isListeningRef_q :: bool
  isRecordingRef_q :: bool
  mediaRecorderRef_q :: "nat option"
  chunksRef_q :: "blob list"
  silenceTimeoutRef_q :: "nat option"
  recordingTimeoutRef_q :: "nat option"
  streamRef_q :: bool
  cobraRef_q :: bool
  recordingStartTimeRef_q :: "int option"
  audioContextRef_q :: bool
  transcription_q :: "transcript_value option"
  error_q :: "string option"
  isProcessing_q :: bool
  lastResponseTime_q :: "int option"
  recorders_q :: "media_recorder list"
  timers_q :: "(nat \<times> int \<times> timer_kind) list"
  nextTimer_q :: nat
  recorderOk_q :: bool
  chained_q :: "blob list"
  inflight_q :: "blob option"
  started_q :: "blob list"
  subscribed_q :: bool
  tracksStopped_q :: bool
  cobraReleased_q :: bool
  unmounted_q :: bool

definition initialized_q :: q_state where
  "initialized_q =
     \<lparr>isInitialized_q = True, isListeningRef_q = False, isRecordingRef_q = False,
      mediaRecorderRef_q = None, chunksRef_q = [], silenceTimeoutRef_q = None,
      recordingTimeoutRef_q = None, streamRef_q = True, cobraRef_q = True,
      recordingStartTimeRef_q = None, audioContextRef_q = True, transcription_q = None,
      error_q = None, isProcessing_q = False, lastResponseTime_q = None, recorders_q = [],
      timers_q = [], nextTimer_q = 1, recorderOk_q = True, chained_q = [],
      inflight_q = None, started_q = [], subscribed_q = False, tracksStopped_q = False,
      cobraReleased_q = False, unmounted_q = False\<rparr>"

text \<open>
  The start of the chained \<open>newProcessing\<close> calls, in order, once the promise before
  them has resolved: each sets \<open>isProcessing\<close>; one that finds no audio context returns
  at once and lets the next start; otherwise it is suspended until its request
  settles.
\<close>

fun startNext_q :: "blob list \<Rightarrow> q_state \<Rightarrow> q_state" where
  "startNext_q [] s = s\<lparr>chained_q := []\<rparr>"
| "startNext_q (b # bs) s =
     (if audioContextRef_q s
      then s\<lparr>isProcessing_q := True, inflight_q := Some b, chained_q := bs,
             started_q := started_q s @ [b]\<rparr>
      else startNext_q bs (s\<lparr>isProcessing_q := True, started_q := started_q s @ [b]\<rparr>))"

definition pump_q :: "q_state \<Rightarrow> q_state" where
  "pump_q s = (if inflight_q s = None then startNext_q (chained_q s) s else s)"

definition processAndSendAudio_q :: "blob \<Rightarrow> q_state \<Rightarrow> q_state" where
  "processAndSendAudio_q audioBlob s = pump_q (s\<lparr>chained_q := chained_q s @ [audioBlob]\<rparr>)"

text \<open>The message of the error that \<open>newProcessing\<close> catches.\<close>

fun failure_message :: "outcome \<Rightarrow> string option" where
  "failure_message (DecodeFailed m) = Some m"
| "failure_message (FetchRejected m) = Some m"
| "failure_message (HttpError status errorText) =
     Some (''API Error ('' @ status @ ''): '' @ errorText)"
| "failure_message (JsonRejected m) = Some m"
| "failure_message (Success t) = None"
| "failure_message NoTranscript = None"

text \<open>
  The rest of the suspended \<open>newProcessing\<close> when its request settles at time \<open>now\<close>,
  and then the start of what is chained behind it.  Nothing happens when no request
  is outstanding.
\<close>

definition settled_q :: "int \<Rightarrow> outcome \<Rightarrow> q_state \<Rightarrow> q_state" where
  "settled_q now out s =
     (case inflight_q s of
        None \<Rightarrow> s
      | Some b \<Rightarrow>
          (let s1 = (case data_transcript out of
                       Some v \<Rightarrow>
                         s\<lparr>lastResponseTime_q := Some now,
                           transcription_q := Some (appended (transcription_q s) v),
                           isProcessing_q := False\<rparr>
                     | None \<Rightarrow> s\<lparr>error_q := failure_message out, isProcessing_q := False\<rparr>)
           in pump_q (s1\<lparr>inflight_q := None\<rparr>)))"

definition stopRecording_q :: "q_state \<Rightarrow> q_state" where
  "stopRecording_q s =
     (let s1 = (if current_state (recorders_q s) (mediaRecorderRef_q s) = Some Recording
                then s\<lparr>recorders_q :=
                         (recorders_q s)[the (mediaRecorderRef_q s) :=
                            mr_stop (recorders_q s ! the (mediaRecorderRef_q s))]\<rparr>
                else s)
      in case recordingTimeoutRef_q s1 of
           None \<Rightarrow> s1
         | Some h \<Rightarrow> s1\<lparr>timers_q := clearTimer h (timers_q s1),
                        recordingTimeoutRef_q := None\<rparr>)"

definition startRecording_q :: "int \<Rightarrow> q_state \<Rightarrow> q_state" where
  "startRecording_q now s =
     (if \<not> streamRef_q s
         \<or> current_state (recorders_q s) (mediaRecorderRef_q s) = Some Recording
      then s
      else if \<not> recorderOk_q s then s\<lparr>error_q := Some ''Failed to start recording''\<rparr>
      else s\<lparr>recorders_q := recorders_q s @ [mr_started now],
             mediaRecorderRef_q := Some (length (recorders_q s)),
             chunksRef_q := [],
             recordingStartTimeRef_q := Some now,
             isRecordingRef_q := True,
             recordingTimeoutRef_q := Some (nextTimer_q s),
             timers_q := timers_q s @
               [(nextTimer_q s, now + MAX_RECORDING_DURATION_q,
                 MaxDurationTimer (length (recorders_q s)))],
             nextTimer_q := Suc (nextTimer_q s)\<rparr>)"

definition handleVoiceDetected_q :: "int \<Rightarrow> q_state \<Rightarrow> q_state" where
  "handleVoiceDetected_q now s =
     (let s1 = (case silenceTimeoutRef_q s of
                  None \<Rightarrow> s
                | Some h \<Rightarrow> s\<lparr>timers_q := clearTimer h (timers_q s),
                              silenceTimeoutRef_q := None\<rparr>)
      in if \<not> isRecordingRef_q s1 \<and> isListeningRef_q s1 \<and> streamRef_q s1
         then startRecording_q now s1
         else s1)"

definition handleSilenceDetected_q :: "int \<Rightarrow> q_state \<Rightarrow> q_state" where
  "handleSilenceDetected_q now s =
     (if silenceTimeoutRef_q s = None \<and> isRecordingRef_q s
      then s\<lparr>silenceTimeoutRef_q := Some (nextTimer_q s),
             timers_q := timers_q s @
               [(nextTimer_q s, now + SILENCE_DURATION_THRESHOLD_q, SilenceTimer)],
             nextTimer_q := Suc (nextTimer_q s)\<rparr>
      else s)"

definition handleVoiceProbability_q :: "int \<Rightarrow> rat \<Rightarrow> q_state \<Rightarrow> q_state" where
  "handleVoiceProbability_q now probability s =
     (if probability \<ge> VOICE_PROBABILITY_THRESHOLD_q
      then handleVoiceDetected_q now s
      else handleSilenceDetected_q now s)"

definition ondataavailable_q :: "blob \<Rightarrow> q_state \<Rightarrow> q_state" where
  "ondataavailable_q b s =
     (if length b > 0 then s\<lparr>chunksRef_q := chunksRef_q s @ [b]\<rparr> else s)"

text \<open>\<open>recordingStartTimeRef.current || 0\<close>\<close>

definition startTimeOr0 :: "int option \<Rightarrow> int" where
  "startTimeOr0 ref = (case ref of None \<Rightarrow> 0 | Some t \<Rightarrow> t)"

definition onstop_q :: "int \<Rightarrow> q_state \<Rightarrow> q_state" where
  "onstop_q now s =
     (let duration = now - startTimeOr0 (recordingStartTimeRef_q s);
          s1 = (if duration \<ge> MIN_RECORDING_DURATION_q \<and> length (chunksRef_q s) > 0
                then processAndSendAudio_q (newBlob (chunksRef_q s)) s
                else s)
      in s1\<lparr>chunksRef_q := [], isRecordingRef_q := False, recordingStartTimeRef_q := None\<rparr>)"

text \<open>The callbacks of the two timers.\<close>

definition timerCallback_q :: "timer_kind \<Rightarrow> q_state \<Rightarrow> q_state" where
  "timerCallback_q k s =
     (case k of
        SilenceTimer \<Rightarrow> (stopRecording_q s)\<lparr>silenceTimeoutRef_q := None\<rparr>
      | MaxDurationTimer r \<Rightarrow>
          (if r < length (recorders_q s) \<and> mr_state (recorders_q s ! r) = Recording
           then stopRecording_q s else s))"

definition startListening_q :: "bool \<Rightarrow> q_state \<Rightarrow> q_state" where
  "startListening_q ok s =
     (if \<not> isInitialized_q s \<or> \<not> cobraRef_q s then s
      else if ok then s\<lparr>subscribed_q := True, isListeningRef_q := True, error_q := None\<rparr>
      else s\<lparr>error_q := Some ''Failed to start listening''\<rparr>)"

definition stopListening_q :: "bool \<Rightarrow> q_state \<Rightarrow> q_state" where
  "stopListening_q ok s =
     (if \<not> isListeningRef_q s \<or> \<not> cobraRef_q s then s
      else if ok then
        (let s1 = s\<lparr>subscribed_q := False\<rparr>;
             s2 = (if isRecordingRef_q s1 then stopRecording_q s1 else s1)
         in s2\<lparr>isListeningRef_q := False, error_q := None\<rparr>)
      else s\<lparr>error_q := Some ''Failed to stop listening''\<rparr>)"

definition cleanup_q :: "q_state \<Rightarrow> q_state" where
  "cleanup_q s =
     (let s1 = (if isListeningRef_q s \<and> cobraRef_q s then s\<lparr>subscribed_q := False\<rparr> else s);
          s2 = (if streamRef_q s1
                then s1\<lparr>tracksStopped_q := True, recorders_q := tracksEnded (recorders_q s1)\<rparr>
                else s1)
      in if cobraRef_q s2 then s2\<lparr>cobraReleased_q := True\<rparr> else s2)"

text \<open>
  What React keeps of a handler's work (\<open>s\<close> before the handler, \<open>s'\<close> after): once
  the component has unmounted the updates of the React state are dropped.
\<close>

definition commit_q :: "q_state \<Rightarrow> q_state \<Rightarrow> q_state" where
  "commit_q s s' =
     (if unmounted_q s
      then s'\<lparr>isInitialized_q := isInitialized_q s, transcription_q := transcription_q s,
             error_q := error_q s, isProcessing_q := isProcessing_q s,
             lastResponseTime_q := lastResponseTime_q s\<rparr>
      else s')"

text \<open>The timer with handle \<open>h\<close>, when it is pending and due at \<open>now\<close>.\<close>

definition dueTimer_q :: "nat \<Rightarrow> int \<Rightarrow> (nat \<times> int \<times> timer_kind) list \<Rightarrow> timer_kind option" where
  "dueTimer_q h now ts =
     (case filter (\<lambda>e. fst e = h \<and> fst (snd e) \<le> now) ts of
        [] \<Rightarrow> None
      | e # es \<Rightarrow> Some (snd (snd e)))"

definition step_q :: "int \<times> event \<Rightarrow> q_state \<Rightarrow> q_state" where
  "step_q te s =
     commit_q s
       (case te of (now, ev) \<Rightarrow>
          (case ev of
             Probability p \<Rightarrow> handleVoiceProbability_q now p s
           | DataAvailable r b \<Rightarrow> ondataavailable_q b s
           | RecorderStop r \<Rightarrow>
               (if r < length (recorders_q s) \<and> mr_stopping (recorders_q s ! r)
                then onstop_q now
                       (s\<lparr>recorders_q := (recorders_q s)[r := mr_stopped (recorders_q s ! r)]\<rparr>)
                else s)
           | TimerFired h \<Rightarrow>
               (case dueTimer_q h now (timers_q s) of
                  None \<Rightarrow> s
                | Some k \<Rightarrow> timerCallback_q k (s\<lparr>timers_q := clearTimer h (timers_q s)\<rparr>))
           | StartListening ok \<Rightarrow> startListening_q ok s
           | StopListening ok \<Rightarrow> stopListening_q ok s
           | Unmount \<Rightarrow> (cleanup_q s)\<lparr>unmounted_q := True\<rparr>
           | Settled out \<Rightarrow> settled_q now out s
           | _ \<Rightarrow> s))"

definition run_q :: "(int \<times> event) list \<Rightarrow> q_state \<Rightarrow> q_state" where
  "run_q evs s = fold step_q evs s"

section \<open>RealtimeSpeechToText that awaits the transcription (src/app/page.tsx, second component)\<close>

definition VOICE_PROBABILITY_THRESHOLD_rt :: rat where
  "VOICE_PROBABILITY_THRESHOLD_rt = 5 / 10"

definition SILENCE_DURATION_THRESHOLD_rt :: int where
  "SILENCE_DURATION_THRESHOLD_rt = 1500"

definition MIN_RECORDING_DURATION_rt :: int where
  "MIN_RECORDING_DURATION_rt = 500"

text \<open>
  The refs and the React state, the browser's recorders and timers, and the \<open>onstop\<close>
  handlers that are suspended at \<open>await processAndSendAudio(audioBlob)\<close>, oldest first
  (\<open>awaiting\<close>).  The handlers Cobra calls are closures of the first render, so the
  \<open>isProcessing\<close> they test is the value of that render (\<open>seenIsProcessing\<close>), which
  \<open>setIsProcessing\<close> does not change.  \<open>apiKey\<close> says whether the Sarvam key is
  configured, \<open>recorderOk\<close> whether \<open>new MediaRecorder(stream, options)\<close> succeeds,
  \<open>unmounted\<close> that the component has unmounted.
\<close>

record rt_state =
  isInitialized_rt :: bool
  isListeningRef_rt :: bool
  isRecordingRef_rt :: bool
  mediaRecorderRef_rt :: "nat option"
  chunksRef_rt :: "blob list"
  silenceTimeoutRef_rt :: "nat option"
  streamRef_rt :: bool
  cobraRef_rt :: bool
  recordingStartTimeRef_rt :: "int option"
  transcription_rt :: "transcript_value option"
  error_rt :: "string option"
  isProcessing_rt :: bool
  seenIsProcessing_rt :: bool
  lastResponseTime_rt :: "int option"
  recorders_rt :: "media_recorder list"
  timers_rt :: "(nat \<times> int) list"
  nextTimer_rt :: nat
  recorderOk_rt :: bool
  apiKey_rt :: bool
  awaiting_rt :: "blob list"
  subscribed_rt :: bool
  tracksStopped_rt :: bool
  cobraReleased_rt :: bool
  unmounted_rt :: bool

definition initialized_rt :: rt_state where
  "initialized_rt =
     \<lparr>isInitialized_rt = True, isListeningRef_rt = False, isRecordingRef_rt = False,
      mediaRecorderRef_rt = None, chunksRef_rt = [], silenceTimeoutRef_rt = None,
      streamRef_rt = True, cobraRef_rt = True, recordingStartTimeRef_rt = None,
      transcription_rt = None, error_rt = None, isProcessing_rt = False,
      seenIsProcessing_rt = False, lastResponseTime_rt = None, recorders_rt = [],
      timers_rt = [], nextTimer_rt = 1, recorderOk_rt = True, apiKey_rt = True,
      awaiting_rt = [], subscribed_rt = False, tracksStopped_rt = False,
      cobraReleased_rt = False, unmounted_rt = False\<rparr>"

definition stopRecording_rt :: "rt_state \<Rightarrow> rt_state" where
  "stopRecording_rt s =
     (if current_state (recorders_rt s) (mediaRecorderRef_rt s) = Some Recording
      then s\<lparr>recorders_rt :=
               (recorders_rt s)[the (mediaRecorderRef_rt s) :=
                  mr_stop (recorders_rt s ! the (mediaRecorderRef_rt s))]\<rparr>
      else s)"

definition startRecording_rt :: "int \<Rightarrow> rt_state \<Rightarrow> rt_state" where
  "startRecording_rt now s =
     (if \<not> streamRef_rt s
         \<or> current_state (recorders_rt s) (mediaRecorderRef_rt s) = Some Recording
         \<or> seenIsProcessing_rt s
      then s
      else if \<not> recorderOk_rt s
      then s\<lparr>error_rt := Some ''Failed to start recording'', isProcessing_rt := False\<rparr>
      else s\<lparr>isProcessing_rt := True,
             recorders_rt := recorders_rt s @ [mr_started now],
             mediaRecorderRef_rt := Some (length (recorders_rt s)),
             chunksRef_rt := [],
             recordingStartTimeRef_rt := Some now,
             isRecordingRef_rt := True\<rparr>)"

definition handleVoiceDetected_rt :: "int \<Rightarrow> rt_state \<Rightarrow> rt_state" where
  "handleVoiceDetected_rt now s =
     (let s1 = (case silenceTimeoutRef_rt s of
                  None \<Rightarrow> s
                | Some h \<Rightarrow> s\<lparr>timers_rt := clearTimer h (timers_rt s),
                              silenceTimeoutRef_rt := None\<rparr>)
      in if \<not> isRecordingRef_rt s1 \<and> isListeningRef_rt s1 \<and> streamRef_rt s1
            \<and> \<not> seenIsProcessing_rt s1
         then startRecording_rt now s1
         else s1)"

definition handleSilenceDetected_rt :: "int \<Rightarrow> rt_state \<Rightarrow> rt_state" where
  "handleSilenceDetected_rt now s =
     (if silenceTimeoutRef_rt s = None \<and> isRecordingRef_rt s
      then s\<lparr>silenceTimeoutRef_rt := Some (nextTimer_rt s),
             timers_rt := timers_rt s @ [(nextTimer_rt s, now + SILENCE_DURATION_THRESHOLD_rt)],
             nextTimer_rt := Suc (nextTimer_rt s)\<rparr>
      else s)"

definition handleVoiceProbability_rt :: "int \<Rightarrow> rat \<Rightarrow> rt_state \<Rightarrow> rt_state" where
  "handleVoiceProbability_rt now probability s =
     (if probability \<ge> VOICE_PROBABILITY_THRESHOLD_rt
      then handleVoiceDetected_rt now s
      else handleSilenceDetected_rt now s)"

definition silenceTimeout_rt :: "rt_state \<Rightarrow> rt_state" where
  "silenceTimeout_rt s = (stopRecording_rt s)\<lparr>silenceTimeoutRef_rt := None\<rparr>"

definition ondataavailable_rt :: "blob \<Rightarrow> rt_state \<Rightarrow> rt_state" where
  "ondataavailable_rt b s =
     (if length b > 0 then s\<lparr>chunksRef_rt := chunksRef_rt s @ [b]\<rparr> else s)"

text \<open>The \<open>finally\<close> block of \<open>onstop\<close>.\<close>

definition onstop_finally_rt :: "rt_state \<Rightarrow> rt_state" where
  "onstop_finally_rt s =
     s\<lparr>chunksRef_rt := [], isRecordingRef_rt := False, recordingStartTimeRef_rt := None,
       isProcessing_rt := False\<rparr>"

text \<open>
  \<open>onstop\<close> up to its \<open>await\<close>: with a long enough recording and a configured key
  the handler is suspended until the transcription settles; without the key
  \<open>processAndSendAudio\<close> catches its own error at once.
\<close>

definition onstop_rt :: "int \<Rightarrow> rt_state \<Rightarrow> rt_state" where
  "onstop_rt now s =
     (let duration = now - startTimeOr0 (recordingStartTimeRef_rt s)
      in if duration \<ge> MIN_RECORDING_DURATION_rt \<and> length (chunksRef_rt s) > 0
         then (if apiKey_rt s
               then s\<lparr>awaiting_rt := awaiting_rt s @ [newBlob (chunksRef_rt s)]\<rparr>
               else onstop_finally_rt
                      (s\<lparr>error_rt :=
                           Some ''Sarvam API key is not configured in environment variables''\<rparr>))
         else onstop_finally_rt s)"

text \<open>
  The transcription of the oldest suspended handler settles at time \<open>now\<close>: the rest
  of \<open>processAndSendAudio\<close>, then the \<open>finally\<close> block of the handler.
\<close>

definition settled_rt :: "int \<Rightarrow> outcome \<Rightarrow> rt_state \<Rightarrow> rt_state" where
  "settled_rt now out s =
     (case awaiting_rt s of
        [] \<Rightarrow> s
      | b # bs \<Rightarrow>
          (let s1 = (case data_transcript out of
                       Some v \<Rightarrow>
                         s\<lparr>lastResponseTime_rt := Some now,
                           transcription_rt := Some (appended (transcription_rt s) v)\<rparr>
                     | None \<Rightarrow> s\<lparr>error_rt := failure_message out\<rparr>)
           in onstop_finally_rt (s1\<lparr>awaiting_rt := bs\<rparr>)))"

definition startListening_rt :: "bool \<Rightarrow> rt_state \<Rightarrow> rt_state" where
  "startListening_rt ok s =
     (if \<not> isInitialized_rt s \<or> \<not> cobraRef_rt s then s
      else if ok then s\<lparr>subscribed_rt := True, isListeningRef_rt := True, error_rt := None\<rparr>
      else s\<lparr>error_rt := Some ''Failed to start listening''\<rparr>)"

definition stopListening_rt :: "bool \<Rightarrow> rt_state \<Rightarrow> rt_state" where
  "stopListening_rt ok s =
     (if \<not> isListeningRef_rt s \<or> \<not> cobraRef_rt s then s
      else if ok then
        (let s1 = s\<lparr>subscribed_rt := False\<rparr>;
             s2 = (if isRecordingRef_rt s1 then stopRecording_rt s1 else s1)
         in s2\<lparr>isListeningRef_rt := False, error_rt := None\<rparr>)
      else s\<lparr>error_rt := Some ''Failed to stop listening''\<rparr>)"

definition cleanup_rt :: "rt_state \<Rightarrow> rt_state" where
  "cleanup_rt s =
     (let s1 = (if isListeningRef_rt s \<and> cobraRef_rt s then s\<lparr>subscribed_rt := False\<rparr> else s);
          s2 = (if streamRef_rt s1
                then s1\<lparr>tracksStopped_rt := True, recorders_rt := tracksEnded (recorders_rt s1)\<rparr>
                else s1)
      in if cobraRef_rt s2 then s2\<lparr>cobraReleased_rt := True\<rparr> else s2)"

text \<open>
  What React keeps of a handler's work (\<open>s\<close> before the handler, \<open>s'\<close> after): once
  the component has unmounted the updates of the React state are dropped.
\<close>

definition commit_rt :: "rt_state \<Rightarrow> rt_state \<Rightarrow> rt_state" where
  "commit_rt s s' =
     (if unmounted_rt s
      then s'\<lparr>isInitialized_rt := isInitialized_rt s, transcription_rt := transcription_rt s,
             error_rt := error_rt s, isProcessing_rt := isProcessing_rt s,
             lastResponseTime_rt := lastResponseTime_rt s\<rparr>
      else s')"

definition step_rt :: "int \<times> event \<Rightarrow> rt_state \<Rightarrow> rt_state" where
  "step_rt te s =
     commit_rt s
       (case te of (now, ev) \<Rightarrow>
          (case ev of
             Probability p \<Rightarrow> handleVoiceProbability_rt now p s
           | DataAvailable r b \<Rightarrow> ondataavailable_rt b s
           | RecorderStop r \<Rightarrow>
               (if r < length (recorders_rt s) \<and> mr_stopping (recorders_rt s ! r)
                then onstop_rt now
                       (s\<lparr>recorders_rt := (recorders_rt s)[r := mr_stopped (recorders_rt s ! r)]\<rparr>)
                else s)
           | TimerFired h \<Rightarrow>
               (if due h now (timers_rt s)
                then silenceTimeout_rt (s\<lparr>timers_rt := clearTimer h (timers_rt s)\<rparr>)
                else s)
           | StartListening ok \<Rightarrow> startListening_rt ok s
           | StopListening ok \<Rightarrow> stopListening_rt ok s
           | Unmount \<Rightarrow> (cleanup_rt s)\<lparr>unmounted_rt := True\<rparr>
           | Settled out \<Rightarrow> settled_rt now out s
           | _ \<Rightarrow> s))"

definition run_rt :: "(int \<times> event) list \<Rightarrow> rt_state \<Rightarrow> rt_state" where
  "run_rt evs s = fold step_rt evs s"

definition bigChunk :: blob where
  "bigChunk = replicate (MAX_BUFFER_SIZE + 1) 0"

section \<open>Predicates and example inputs for VoiceDetector\<close>

text \<open>
  The events of a silent stretch: probabilities under the threshold, data of the
  recorder, and timers the event loop may look at.
\<close>

definition quiet_vd :: "int \<times> event \<Rightarrow> bool" where
  "quiet_vd te =
     (case snd te of
        Probability p \<Rightarrow> p < VOICE_PROBABILITY_THRESHOLD_vd
      | DataAvailable r b \<Rightarrow> True
      | TimerFired h \<Rightarrow> True
      | _ \<Rightarrow> False)"

text \<open>
  A recording is in progress, and every pending timer is the one
  \<open>silenceTimeoutRef\<close> holds and is not due before \<open>d\<close>.
\<close>

definition armed_after :: "int \<Rightarrow> vd_state \<Rightarrow> bool" where
  "armed_after d s =
     (isRecordingRef_vd s
      \<and> (\<forall>e \<in> set (timers_vd s). silenceTimeoutRef_vd s = Some (fst e) \<and> d \<le> snd e))"

text \<open>
  The invariant behind the single session: a recorder whose \<open>stop\<close> event is pending
  is inactive, and an active recorder is the one \<open>mediaRecorderRef\<close> holds, with
  \<open>isRecordingRef\<close> set.
\<close>

definition one_session_vd :: "vd_state \<Rightarrow> bool" where
  "one_session_vd s =
     (\<forall>i < length (recorders_vd s).
        (mr_stopping (recorders_vd s ! i) \<longrightarrow> mr_state (recorders_vd s ! i) = Inactive)
        \<and> (active (recorders_vd s ! i) \<longrightarrow> mediaRecorderRef_vd s = Some i \<and> isRecordingRef_vd s))"

text \<open>An event that brings no audio: any event but a \<open>dataavailable\<close> with data.\<close>

definition no_audio :: "int \<times> event \<Rightarrow> bool" where
  "no_audio te = (case snd te of DataAvailable r b \<Rightarrow> length b = 0 | _ \<Rightarrow> True)"

text \<open>Listening, with a recording started by a voiced sample at 1000 ms.\<close>

definition recording_vd :: vd_state where
  "recording_vd = run_vd [(1000, StartListening True), (1000, Probability (1 / 2))] initialized_vd"

text \<open>A dip of 300 ms, from 3000 ms on.\<close>

definition dip_vd :: "(int \<times> event) list" where
  "dip_vd = [(3000, Probability 0), (3100, DataAvailable 0 [1, 2, 3]), (3200, TimerFired 1),
             (3250, Probability (1 / 10))]"

text \<open>A session of 200 ms with audio, and its \<open>stop\<close> event pending.\<close>

definition short_session_vd :: vd_state where
  "short_session_vd =
     run_vd [(1100, DataAvailable 0 [1, 2, 3]), (1200, StopListening True)] recording_vd"

text \<open>A session of 2500 ms in which the recorder delivers only empty data.\<close>

definition empty_session :: "(int \<times> event) list" where
  "empty_session =
     [(1500, DataAvailable 0 []), (2000, Probability 0), (3500, TimerFired 1),
      (3500, DataAvailable 0 []), (3500, RecorderStop 0)]"

text \<open>
  The component unmounts 200 ms after the silence timer was armed, while the
  recording is still running.
\<close>

definition unmount_trace_vd :: "(int \<times> event) list" where
  "unmount_trace_vd =
     [(1000, StartListening True), (1000, Probability (1 / 2)),
      (1500, DataAvailable 0 [1, 2, 3]), (2000, Probability 0), (2200, Unmount)]"

text \<open>Every pending timer is the one \<open>silenceTimeoutRef\<close> holds.\<close>

definition timer_tracked_vd :: "vd_state \<Rightarrow> bool" where
  "timer_tracked_vd s = (\<forall>e \<in> set (timers_vd s). silenceTimeoutRef_vd s = Some (fst e))"

text \<open>
  The events of a stretch in which the voice stays over the threshold: voiced
  probabilities, data of the recorder, and timers the event loop looks at.
\<close>

definition voiced_vd :: "int \<times> event \<Rightarrow> bool" where
  "voiced_vd te =
     (case snd te of
        Probability p \<Rightarrow> p \<ge> VOICE_PROBABILITY_THRESHOLD_vd
      | DataAvailable r b \<Rightarrow> True
      | TimerFired h \<Rightarrow> True
      | _ \<Rightarrow> False)"

text \<open>One minute of voice after the start at 1000 ms.\<close>

definition long_voice_vd :: "(int \<times> event) list" where
  "long_voice_vd =
     [(1500, DataAvailable 0 [1]), (4000, Probability (1 / 2)), (4000, TimerFired 1),
      (31000, Probability (9 / 10)), (61000, Probability (1 / 2))]"

section \<open>Predicates and example inputs for the processing queue\<close>

text \<open>
  The dispatcher on its own: a clip is submitted (\<open>onstop\<close> calls
  \<open>processAndSendAudio\<close>), or the request that is outstanding settles at some time.
  \<open>net\<close> gives, for each clip, what its transcription comes to; when a settling
  happens is up to the schedule, what it delivers is not.
\<close>

datatype job_event = Submit blob | Done int

fun submits :: "job_event list \<Rightarrow> blob list" where
  "submits [] = []"
| "submits (Submit b # evs) = b # submits evs"
| "submits (Done t # evs) = submits evs"

definition dispatch :: "(blob \<Rightarrow> outcome) \<Rightarrow> job_event \<Rightarrow> q_state \<Rightarrow> q_state" where
  "dispatch net ev s =
     (case ev of
        Submit b \<Rightarrow> processAndSendAudio_q b s
      | Done now \<Rightarrow>
          (case inflight_q s of None \<Rightarrow> s | Some b \<Rightarrow> settled_q now (net b) s))"

definition run_dispatch :: "(blob \<Rightarrow> outcome) \<Rightarrow> job_event list \<Rightarrow> q_state \<Rightarrow> q_state" where
  "run_dispatch net evs s = fold (dispatch net) evs s"

text \<open>
  The transcript that a list of results gives when they are merged one after the
  other, in the order of the list, onto what was accumulated before: a result with a
  parsed body is appended, a failure leaves the transcript as it is.
\<close>

fun merge_one :: "transcript_value option \<Rightarrow> outcome \<Rightarrow> transcript_value option" where
  "merge_one acc (Success t) = Some (appended acc (Text t))"
| "merge_one acc NoTranscript = Some (appended acc Undefined)"
| "merge_one acc _ = acc"

definition merge_transcripts ::
  "transcript_value option \<Rightarrow> outcome list \<Rightarrow> transcript_value option" where
  "merge_transcripts acc outs = foldl merge_one acc outs"

text \<open>The clips that are submitted and not settled, oldest first.\<close>

definition pending_q :: "q_state \<Rightarrow> blob list" where
  "pending_q s = (case inflight_q s of None \<Rightarrow> [] | Some b \<Rightarrow> [b]) @ chained_q s"

definition queue_ok :: "q_state \<Rightarrow> bool" where
  "queue_ok s = (audioContextRef_q s \<and> (inflight_q s = None \<longrightarrow> chained_q s = []))"

text \<open>Three clips and a service that transcribes the first and the third and fails on the second.\<close>

definition clipA :: blob where "clipA = [1, 1]"

definition clipB :: blob where "clipB = [2]"

definition clipC :: blob where "clipC = [3, 3, 3]"


definition all_success_net :: "blob \<Rightarrow> outcome" where
  "all_success_net b =
     (if b = clipA then Success ''alpha''
      else if b = clipB then Success ''beta''
      else Success ''gamma'')"

text \<open>The three clips are submitted before any request settles.\<close>

definition burst_schedule :: "job_event list" where
  "burst_schedule = [Submit clipA, Submit clipB, Submit clipC, Done 100, Done 200, Done 300]"


text \<open>
  The invariant of the component.  A recorder whose \<open>stop\<close> event is pending is
  inactive, and an active recorder is the one \<open>mediaRecorderRef\<close> holds, with
  \<open>isRecordingRef\<close> set.  Every pending timer is accounted for: a silence timer is
  the one \<open>silenceTimeoutRef\<close> holds, and a maximum-duration timer is the one
  \<open>recordingTimeoutRef\<close> holds and belongs to the current recorder, which is
  recording.
\<close>

definition sessions_ok_q :: "q_state \<Rightarrow> bool" where
  "sessions_ok_q s =
     (\<forall>i < length (recorders_q s).
        (mr_stopping (recorders_q s ! i) \<longrightarrow> mr_state (recorders_q s ! i) = Inactive)
        \<and> (active (recorders_q s ! i) \<longrightarrow> mediaRecorderRef_q s = Some i \<and> isRecordingRef_q s))"

definition timer_ok_q :: "q_state \<Rightarrow> nat \<times> int \<times> timer_kind \<Rightarrow> bool" where
  "timer_ok_q s e =
     (case snd (snd e) of
        SilenceTimer \<Rightarrow> silenceTimeoutRef_q s = Some (fst e)
      | MaxDurationTimer r \<Rightarrow>
          recordingTimeoutRef_q s = Some (fst e) \<and> mediaRecorderRef_q s = Some r
          \<and> r < length (recorders_q s) \<and> mr_state (recorders_q s ! r) = Recording)"

definition inv_q :: "q_state \<Rightarrow> bool" where
  "inv_q s = (sessions_ok_q s \<and> (\<forall>e \<in> set (timers_q s). timer_ok_q s e))"

text \<open>
  The events of a stretch in which the voice stays over the threshold: voiced
  probabilities, data of the recorder, timers the event loop looks at, and
  transcription requests that settle.
\<close>

definition voiced_q :: "int \<times> event \<Rightarrow> bool" where
  "voiced_q te =
     (case snd te of
        Probability p \<Rightarrow> p \<ge> VOICE_PROBABILITY_THRESHOLD_q
      | DataAvailable r b \<Rightarrow> True
      | TimerFired h \<Rightarrow> True
      | Settled out \<Rightarrow> True
      | _ \<Rightarrow> False)"

text \<open>
  The session of recorder \<open>r\<close> is running, able to restart, with no silence timer,
  and the only pending timer is its maximum-duration timer \<open>h\<close>, due at \<open>d\<close>.
\<close>

definition running_q :: "int \<Rightarrow> nat \<Rightarrow> nat \<Rightarrow> q_state \<Rightarrow> bool" where
  "running_q d h r s =
     (isRecordingRef_q s \<and> isListeningRef_q s \<and> streamRef_q s \<and> recorderOk_q s
      \<and> silenceTimeoutRef_q s = None \<and> recordingTimeoutRef_q s = Some h
      \<and> mediaRecorderRef_q s = Some r \<and> timers_q s = [(h, d, MaxDurationTimer r)])"

text \<open>The chunks that the \<open>dataavailable\<close> events of a list bring, in order.\<close>

fun chunks_of :: "(int \<times> event) list \<Rightarrow> blob list" where
  "chunks_of [] = []"
| "chunks_of (te # evs) =
     (case snd te of
        DataAvailable r b \<Rightarrow> (if length b > 0 then [b] else [])
      | _ \<Rightarrow> []) @ chunks_of evs"

text \<open>Listening, with nothing recorded yet.\<close>

definition listening_q :: q_state where
  "listening_q = run_q [(1000, StartListening True)] initialized_q"

text \<open>A voiced stretch of 2900 ms after a start at 1000 ms.\<close>

definition voiced_stretch :: "(int \<times> event) list" where
  "voiced_stretch =
     [(1250, DataAvailable 0 [1, 2]), (1500, Probability (9 / 10)), (2000, TimerFired 1),
      (3900, Probability (1 / 2))]"

text \<open>
  Listening, the first utterance recorded and stopped by the silence timer, and its
  clip in flight at the transcription service.
\<close>

definition transcribing_q :: q_state where
  "transcribing_q =
     run_q [(1000, Probability (1 / 2)), (1250, DataAvailable 0 [1, 2]),
            (2000, Probability 0), (2750, TimerFired 2), (2750, DataAvailable 0 [3]),
            (2760, RecorderStop 0)] listening_q"

text \<open>A session that started at 1000 ms, stopped after 200 ms, with its \<open>stop\<close> event pending.\<close>

definition short_session_q :: q_state where
  "short_session_q =
     run_q [(1000, Probability (1 / 2)), (1100, DataAvailable 0 [1, 2, 3]),
            (1200, StopListening True)] listening_q"

text \<open>A session of 1760 ms in which the recorder delivers only empty data.\<close>

definition empty_session_q :: "(int \<times> event) list" where
  "empty_session_q =
     [(1000, Probability (1 / 2)), (1500, DataAvailable 0 []), (2000, Probability 0),
      (2750, TimerFired 2), (2750, DataAvailable 0 []), (2760, RecorderStop 0)]"

section \<open>Example inputs for the awaiting component and for Index\<close>

text \<open>
  The awaiting RealtimeSpeechToText: listening, one utterance recorded from 1000 ms,
  stopped by the silence timer at 3500 ms, and its \<open>onstop\<close> handler suspended at the
  transcription request.
\<close>

definition transcribing_rt :: rt_state where
  "transcribing_rt =
     run_rt [(1000, StartListening True), (1000, Probability (9 / 10)),
             (1500, DataAvailable 0 [1, 2]), (2000, Probability 0), (3500, TimerFired 1),
             (3500, DataAvailable 0 [3]), (3510, RecorderStop 0)] initialized_rt"

text \<open>
  Index: listening starts, voice starts at 2000 ms, pauses at 3000 ms and starts
  again at 3500 ms, before the pause timer (due at 5000 ms) runs.
\<close>

definition pause_resume_ix :: "(int \<times> event) list" where
  "pause_resume_ix =
     [(1000, StartListening True), (2000, VoiceStart), (3000, VoiceStop), (3500, VoiceStart)]"

text \<open>
  Index: a first listening session with one utterance, which the pause timer ends at
  5000 ms and whose saved packet ends the listening; then a second session, in
  which voice resumes at 10001 ms, between the \<open>stop()\<close> of the pause timer and the
  \<open>stop\<close> event of the recorder.
\<close>

definition two_sessions_ix :: "(int \<times> event) list" where
  "two_sessions_ix =
     [(1000, StartListening True), (2000, VoiceStart), (2500, DataAvailable 0 [1]),
      (3000, VoiceStop), (5000, TimerFired 1), (5000, RecorderStop 0),
      (6000, StartListening True), (7000, VoiceStart), (7500, DataAvailable 1 [2]),
      (8000, VoiceStop), (10000, TimerFired 2), (10001, VoiceStart), (10002, RecorderStop 1)]"

text \<open>
  The invariant of the awaiting component: as for the other components, a recorder
  whose \<open>stop\<close> event is pending is inactive and an active recorder is the current
  one, with \<open>isRecordingRef\<close> set; moreover no handler is suspended while a
  recorder is active, \<open>isRecordingRef\<close> stays set while a handler is suspended, and
  at most one handler is suspended.
\<close>

definition one_job_rt :: "rt_state \<Rightarrow> bool" where
  "one_job_rt s =
     ((\<forall>i < length (recorders_rt s).
         (mr_stopping (recorders_rt s ! i) \<longrightarrow> mr_state (recorders_rt s ! i) = Inactive)
         \<and> (active (recorders_rt s ! i) \<longrightarrow>
              mediaRecorderRef_rt s = Some i \<and> isRecordingRef_rt s \<and> awaiting_rt s = []))
      \<and> (awaiting_rt s \<noteq> [] \<longrightarrow> isRecordingRef_rt s)
      \<and> length (awaiting_rt s) \<le> 1)"

text \<open>
  The invariant of Index about its pause timer: every pending timer is the one
  \<open>pauseTimeoutRef\<close> holds, and while a timer is pending \<open>silenceStartRef\<close> holds a
  time that is not 0, so that \<open>handlePause\<close> arms no second one.
\<close>

definition timer_tracked_ix :: "ix_state \<Rightarrow> bool" where
  "timer_tracked_ix s =
     ((\<forall>e \<in> set (timers_ix s). pauseTimeoutRef_ix s = Some (fst e))
      \<and> (timers_ix s \<noteq> [] \<longrightarrow> silenceStartRef_ix s \<noteq> None \<and> silenceStartRef_ix s \<noteq> Some 0))"

section \<open>Dropped state updates change no ref, recorder or timer\<close>

lemma commit_vd_refs [simp]:
  "isListeningRef_vd (commit_vd s s') = isListeningRef_vd s'"
  "isRecordingRef_vd (commit_vd s s') = isRecordingRef_vd s'"
  "mediaRecorderRef_vd (commit_vd s s') = mediaRecorderRef_vd s'"
  "audioChunksRef_vd (commit_vd s s') = audioChunksRef_vd s'"
  "silenceTimeoutRef_vd (commit_vd s s') = silenceTimeoutRef_vd s'"
  "recordingStartTimeRef_vd (commit_vd s s') = recordingStartTimeRef_vd s'"
  "streamRef_vd (commit_vd s s') = streamRef_vd s'"
  "cobraRef_vd (commit_vd s s') = cobraRef_vd s'"
  "recorders_vd (commit_vd s s') = recorders_vd s'"
  "timers_vd (commit_vd s s') = timers_vd s'"
  "nextTimer_vd (commit_vd s s') = nextTimer_vd s'"
  "mimeSupported_vd (commit_vd s s') = mimeSupported_vd s'"
  "subscribed_vd (commit_vd s s') = subscribed_vd s'"
  "tracksStopped_vd (commit_vd s s') = tracksStopped_vd s'"
  "cobraReleased_vd (commit_vd s s') = cobraReleased_vd s'"
  "unmounted_vd (commit_vd s s') = unmounted_vd s'"
  by (simp_all add: commit_vd_def)

lemma commit_vd_state [simp]:
  "audioClips_vd (commit_vd s s') = (if unmounted_vd s then audioClips_vd s else audioClips_vd s')"
  "error_vd (commit_vd s s') = (if unmounted_vd s then error_vd s else error_vd s')"
  "isInitialized_vd (commit_vd s s')
     = (if unmounted_vd s then isInitialized_vd s else isInitialized_vd s')"
  by (simp_all add: commit_vd_def)

lemma commit_vd_same [simp]: "commit_vd s s = s"
  by (simp add: commit_vd_def)

lemma commit_vd_preds [simp]:
  "one_session_vd (commit_vd s s') = one_session_vd s'"
  "armed_after d (commit_vd s s') = armed_after d s'"
  "timer_tracked_vd (commit_vd s s') = timer_tracked_vd s'"
  by (simp_all add: one_session_vd_def armed_after_def timer_tracked_vd_def)

lemma commit_q_refs [simp]:
  "isListeningRef_q (commit_q s s') = isListeningRef_q s'"
  "isRecordingRef_q (commit_q s s') = isRecordingRef_q s'"
  "mediaRecorderRef_q (commit_q s s') = mediaRecorderRef_q s'"
  "chunksRef_q (commit_q s s') = chunksRef_q s'"
  "silenceTimeoutRef_q (commit_q s s') = silenceTimeoutRef_q s'"
  "recordingTimeoutRef_q (commit_q s s') = recordingTimeoutRef_q s'"
  "streamRef_q (commit_q s s') = streamRef_q s'"
  "cobraRef_q (commit_q s s') = cobraRef_q s'"
  "recordingStartTimeRef_q (commit_q s s') = recordingStartTimeRef_q s'"
  "audioContextRef_q (commit_q s s') = audioContextRef_q s'"
  "recorders_q (commit_q s s') = recorders_q s'"
  "timers_q (commit_q s s') = timers_q s'"
  "nextTimer_q (commit_q s s') = nextTimer_q s'"
  "recorderOk_q (commit_q s s') = recorderOk_q s'"
  "chained_q (commit_q s s') = chained_q s'"
  "inflight_q (commit_q s s') = inflight_q s'"
  "started_q (commit_q s s') = started_q s'"
  "subscribed_q (commit_q s s') = subscribed_q s'"
  "tracksStopped_q (commit_q s s') = tracksStopped_q s'"
  "cobraReleased_q (commit_q s s') = cobraReleased_q s'"
  "unmounted_q (commit_q s s') = unmounted_q s'"
  by (simp_all add: commit_q_def)

lemma commit_q_state [simp]:
  "transcription_q (commit_q s s')
     = (if unmounted_q s then transcription_q s else transcription_q s')"
  "error_q (commit_q s s') = (if unmounted_q s then error_q s else error_q s')"
  "isProcessing_q (commit_q s s')
     = (if unmounted_q s then isProcessing_q s else isProcessing_q s')"
  "lastResponseTime_q (commit_q s s')
     = (if unmounted_q s then lastResponseTime_q s else lastResponseTime_q s')"
  "isInitialized_q (commit_q s s')
     = (if unmounted_q s then isInitialized_q s else isInitialized_q s')"
  by (simp_all add: commit_q_def)

lemma commit_q_same [simp]: "commit_q s s = s"
  by (simp add: commit_q_def)

lemma commit_q_timer_ok [simp]: "timer_ok_q (commit_q s s') e = timer_ok_q s' e"
  by (simp add: timer_ok_q_def split: timer_kind.splits)

lemma commit_q_preds [simp]:
  "sessions_ok_q (commit_q s s') = sessions_ok_q s'"
  "inv_q (commit_q s s') = inv_q s'"
  "running_q d h r (commit_q s s') = running_q d h r s'"
  by (simp_all add: sessions_ok_q_def inv_q_def running_q_def)

lemma commit_rt_refs [simp]:
  "isListeningRef_rt (commit_rt s s') = isListeningRef_rt s'"
  "isRecordingRef_rt (commit_rt s s') = isRecordingRef_rt s'"
  "mediaRecorderRef_rt (commit_rt s s') = mediaRecorderRef_rt s'"
  "chunksRef_rt (commit_rt s s') = chunksRef_rt s'"
  "silenceTimeoutRef_rt (commit_rt s s') = silenceTimeoutRef_rt s'"
  "streamRef_rt (commit_rt s s') = streamRef_rt s'"
  "cobraRef_rt (commit_rt s s') = cobraRef_rt s'"
  "recordingStartTimeRef_rt (commit_rt s s') = recordingStartTimeRef_rt s'"
  "seenIsProcessing_rt (commit_rt s s') = seenIsProcessing_rt s'"
  "recorders_rt (commit_rt s s') = recorders_rt s'"
  "timers_rt (commit_rt s s') = timers_rt s'"
  "nextTimer_rt (commit_rt s s') = nextTimer_rt s'"
  "recorderOk_rt (commit_rt s s') = recorderOk_rt s'"
  "apiKey_rt (commit_rt s s') = apiKey_rt s'"
  "awaiting_rt (commit_rt s s') = awaiting_rt s'"
  "subscribed_rt (commit_rt s s') = subscribed_rt s'"
  "tracksStopped_rt (commit_rt s s') = tracksStopped_rt s'"
  "cobraReleased_rt (commit_rt s s') = cobraReleased_rt s'"
  "unmounted_rt (commit_rt s s') = unmounted_rt s'"
  by (simp_all add: commit_rt_def)

lemma commit_rt_same [simp]: "commit_rt s s = s"
  by (simp add: commit_rt_def)

lemma commit_rt_preds [simp]:
  "one_job_rt (commit_rt s s') = one_job_rt s'"
  by (simp add: one_job_rt_def)

lemma commit_ix_refs [simp]:
  "mediaRecorderRef_ix (commit_ix s s') = mediaRecorderRef_ix s'"
  "audioChunksRef_ix (commit_ix s s') = audioChunksRef_ix s'"
  "streamRef_ix (commit_ix s s') = streamRef_ix s'"
  "vadRef_ix (commit_ix s s') = vadRef_ix s'"
  "silenceStartRef_ix (commit_ix s s') = silenceStartRef_ix s'"
  "isLongPauseRef_ix (commit_ix s s') = isLongPauseRef_ix s'"
  "pauseTimeoutRef_ix (commit_ix s s') = pauseTimeoutRef_ix s'"
  "currentRecordingStartTime_ix (commit_ix s s') = currentRecordingStartTime_ix s'"
  "recorders_ix (commit_ix s s') = recorders_ix s'"
  "timers_ix (commit_ix s s') = timers_ix s'"
  "nextTimer_ix (commit_ix s s') = nextTimer_ix s'"
  "unmounted_ix (commit_ix s s') = unmounted_ix s'"
  by (simp_all add: commit_ix_def)

lemma commit_ix_same [simp]: "commit_ix s s = s"
  by (simp add: commit_ix_def)

lemma commit_ix_preds [simp]:
  "timer_tracked_ix (commit_ix s s') = timer_tracked_ix s'"
  by (simp add: timer_tracked_ix_def)

lemma memoise_ix_preds [simp]:
  "timer_tracked_ix (memoise_ix b s) = timer_tracked_ix s"
  by (simp add: timer_tracked_ix_def memoise_ix_def)

lemma length_tracksEnded [simp]: "length (tracksEnded recs) = length recs"
  by (simp add: tracksEnded_def)

lemma nth_tracksEnded:
  assumes "i < length recs"
  shows "tracksEnded recs ! i = (if mr_state (recs ! i) = Recording then mr_stop (recs ! i) else recs ! i)"
  using assms by (simp add: tracksEnded_def)

section \<open>Relay server: buffer overflow\<close>

lemma totalSize_snoc: "totalSize (bufs @ [b]) = totalSize bufs + length b"
  by (simp add: totalSize_def)

lemma totalSize_Nil: "totalSize [] = 0"
  by (simp add: totalSize_def)

lemma length_bigChunk: "length bigChunk = 1048577"
  by (simp add: bigChunk_def MAX_BUFFER_SIZE_def)

text \<open>
  C9, as the spec states it, fails on the server: a first audio message of more than
  1MB is answered with an error message, but the client stays registered, the socket
  is not terminated and the buffer keeps the oversized chunk; a second such message
  makes the buffer grow further past the cap.
\<close>

theorem server_overflow_not_fatal_counterexample:
  "inClients (on_message 0 (AudioMessage (Some bigChunk)) on_connection)
   \<and> \<not> terminated (on_message 0 (AudioMessage (Some bigChunk)) on_connection)
   \<and> currentAudioBuffer (on_message 0 (AudioMessage (Some bigChunk)) on_connection) = [bigChunk]
   \<and> totalSize (currentAudioBuffer (on_message 0 (AudioMessage (Some bigChunk)) on_connection))
       > MAX_BUFFER_SIZE
   \<and> totalSize (currentAudioBuffer
        (on_message 1 (AudioMessage (Some bigChunk))
          (on_message 0 (AudioMessage (Some bigChunk)) on_connection)))
       = 2 * MAX_BUFFER_SIZE + 2"
  by (simp add: on_message_def message_try_def on_connection_def ws_send_def
      totalSize_def length_bigChunk MAX_BUFFER_SIZE_def)

text \<open>
  C9, amended: when an audio message takes the accumulated buffer of a client over
  \<open>MAX_BUFFER_SIZE\<close>, the server sends that client the error message
  \<open>Failed to process message\<close> and nothing else, and the overflow is not fatal: the
  client stays in the \<open>clients\<close> map as it was, the socket is not terminated, no
  processing timer is armed or cleared by the message, and no audio is handed to
  transcription by it.
\<close>

theorem server_overflow_reports_error:
  assumes "totalSize (currentAudioBuffer c @ [audioChunk]) > MAX_BUFFER_SIZE"
  shows "sent (on_message now (AudioMessage (Some audioChunk)) c)
           = sent c @ [ErrorMsg ''Failed to process message'']
         \<and> inClients (on_message now (AudioMessage (Some audioChunk)) c) = inClients c
         \<and> terminated (on_message now (AudioMessage (Some audioChunk)) c) = terminated c
         \<and> pendingTimeouts (on_message now (AudioMessage (Some audioChunk)) c)
             = pendingTimeouts c
         \<and> audioProcessingTimeout (on_message now (AudioMessage (Some audioChunk)) c)
             = audioProcessingTimeout c
         \<and> processed (on_message now (AudioMessage (Some audioChunk)) c) = processed c"
  using assms by (simp add: on_message_def message_try_def ws_send_def)

theorem server_overflow_reports_error_witness:
  "totalSize (currentAudioBuffer on_connection @ [bigChunk]) > MAX_BUFFER_SIZE
   \<and> sent (on_message 0 (AudioMessage (Some bigChunk)) on_connection)
       = [Connected, ErrorMsg ''Failed to process message'']
   \<and> inClients (on_message 0 (AudioMessage (Some bigChunk)) on_connection)
   \<and> \<not> terminated (on_message 0 (AudioMessage (Some bigChunk)) on_connection)
   \<and> pendingTimeouts (on_message 0 (AudioMessage (Some bigChunk)) on_connection) = []"
proof -
  have big: "totalSize (currentAudioBuffer on_connection @ [bigChunk]) > MAX_BUFFER_SIZE"
    by (simp add: totalSize_def on_connection_def length_bigChunk MAX_BUFFER_SIZE_def)
  from server_overflow_reports_error [OF big, of 0] big show ?thesis
    by (simp add: on_connection_def)
qed

section \<open>VoiceDetector: evaluation\<close>

lemmas vd_handlers = step_vd_def handleVoiceProbability_vd_def handleVoiceDetected_vd_def
  handleSilenceDetected_vd_def startRecording_vd_def stopRecording_vd_def silenceTimeout_vd_def
  ondataavailable_vd_def onstop_vd_def startListening_vd_def stopListening_vd_def cleanup_vd_def
  commit_vd_def tracksEnded_def

lemmas vd_eval = run_vd_def vd_handlers initialized_vd_def current_state_def mr_started_def
  mr_stop_def mr_stopped_def clearTimer_def due_def newBlob_def
  VOICE_PROBABILITY_THRESHOLD_vd_def SILENCE_DURATION_THRESHOLD_vd_def
  MIN_RECORDING_DURATION_vd_def Let_def

lemma recording_vd_eval:
  "recording_vd =
     initialized_vd\<lparr>subscribed_vd := True, isListeningRef_vd := True,
       recorders_vd := [mr_started 1000], mediaRecorderRef_vd := Some 0,
       recordingStartTimeRef_vd := Some 1000, isRecordingRef_vd := True\<rparr>"
  by (simp add: recording_vd_def vd_eval)

lemma run_vd_snoc: "run_vd (evs @ [te]) s = step_vd te (run_vd evs s)"
  by (simp add: run_vd_def)

lemma run_vd_Cons: "run_vd (te # evs) s = run_vd evs (step_vd te s)"
  by (simp add: run_vd_def)

section \<open>VoiceDetector: one session at a time\<close>

lemma one_session_ref:
  assumes "one_session_vd s" "i < length (recorders_vd s)" "active (recorders_vd s ! i)"
  shows "mediaRecorderRef_vd s = Some i"
  using assms unfolding one_session_vd_def by blast

lemma one_session_frame:
  assumes "one_session_vd s" "recorders_vd s' = recorders_vd s"
    "mediaRecorderRef_vd s' = mediaRecorderRef_vd s" "isRecordingRef_vd s' = isRecordingRef_vd s"
  shows "one_session_vd s'"
  using assms by (simp add: one_session_vd_def)

lemma one_session_startRecording:
  assumes "one_session_vd s" "\<not> isRecordingRef_vd s"
  shows "one_session_vd (startRecording_vd now s)"
  using assms
  by (auto simp: one_session_vd_def startRecording_vd_def nth_append active_def mr_started_def
      less_Suc_eq)

lemma one_session_stopRecording:
  assumes "one_session_vd s"
  shows "one_session_vd (stopRecording_vd s)"
  using assms
  by (auto simp: one_session_vd_def stopRecording_vd_def nth_list_update active_def mr_stop_def
      current_state_def split: option.splits if_splits)

lemma one_session_onstop:
  assumes inv: "one_session_vd s" and r: "r < length (recorders_vd s)"
    and st: "mr_stopping (recorders_vd s ! r)"
  shows "one_session_vd
           (onstop_vd t now
              (s\<lparr>recorders_vd := (recorders_vd s)[r := mr_stopped (recorders_vd s ! r)]\<rparr>))"
proof -
  have ref: "mediaRecorderRef_vd s = Some r"
    using inv r st by (simp add: one_session_vd_def active_def)
  have idle: "\<not> active ((recorders_vd s)[r := mr_stopped (recorders_vd s ! r)] ! i)"
    if "i < length (recorders_vd s)" for i
  proof (cases "i = r")
    case True
    with inv r st show ?thesis
      by (simp add: one_session_vd_def active_def mr_stopped_def)
  next
    case False
    with inv that ref show ?thesis
      by (auto simp: one_session_vd_def)
  qed
  have stop: "mr_stopping ((recorders_vd s)[r := mr_stopped (recorders_vd s ! r)] ! i)
      \<longrightarrow> mr_state ((recorders_vd s)[r := mr_stopped (recorders_vd s ! r)] ! i) = Inactive"
    if "i < length (recorders_vd s)" for i
    using idle [OF that]
    by (cases "mr_state ((recorders_vd s)[r := mr_stopped (recorders_vd s ! r)] ! i)")
      (simp_all add: active_def)
  from idle stop show ?thesis
    by (simp add: one_session_vd_def onstop_vd_def Let_def)
qed

lemma one_session_cleanup:
  assumes inv: "one_session_vd s"
  shows "one_session_vd (cleanup_vd s)"
proof -
  have ended: "one_session_vd
      (s'\<lparr>tracksStopped_vd := True, recorders_vd := tracksEnded (recorders_vd s')\<rparr>)"
    if "one_session_vd s'" for s'
    using that
    by (auto simp: one_session_vd_def nth_tracksEnded active_def mr_stop_def)
  have a: "one_session_vd (s\<lparr>subscribed_vd := False\<rparr>)"
    by (rule one_session_frame [OF inv]) simp_all
  have rel: "one_session_vd (s'\<lparr>cobraReleased_vd := True\<rparr>)" if "one_session_vd s'" for s'
    by (rule one_session_frame [OF that]) simp_all
  from inv a ended rel show ?thesis
    by (simp add: cleanup_vd_def Let_def)
qed

lemma one_session_step:
  assumes "one_session_vd s"
  shows "one_session_vd (step_vd te s)"
proof (cases te)
  case (Pair now ev)
  show ?thesis
  proof (cases ev)
    case (Probability p)
    show ?thesis
    proof (cases "p \<ge> VOICE_PROBABILITY_THRESHOLD_vd")
      case True
      let ?s1 = "case silenceTimeoutRef_vd s of None \<Rightarrow> s
        | Some h \<Rightarrow> s\<lparr>timers_vd := clearTimer h (timers_vd s), silenceTimeoutRef_vd := None\<rparr>"
      have s1: "one_session_vd ?s1"
        by (rule one_session_frame [OF assms]) (simp_all split: option.splits)
      have "isRecordingRef_vd ?s1 = isRecordingRef_vd s"
        by (simp split: option.splits)
      with s1 one_session_startRecording [of ?s1 now] True Pair Probability show ?thesis
        by (auto simp: step_vd_def handleVoiceProbability_vd_def handleVoiceDetected_vd_def
            Let_def)
    next
      case False
      with Pair Probability show ?thesis
        by (auto intro!: one_session_frame [OF assms]
            simp: step_vd_def handleVoiceProbability_vd_def handleSilenceDetected_vd_def)
    qed
  next
    case (DataAvailable r b)
    with Pair show ?thesis
      by (auto intro!: one_session_frame [OF assms] simp: step_vd_def ondataavailable_vd_def)
  next
    case (RecorderStop r)
    show ?thesis
    proof (cases "r < length (recorders_vd s) \<and> mr_stopping (recorders_vd s ! r)")
      case True
      with one_session_onstop [OF assms, of r] Pair RecorderStop show ?thesis
        by (simp add: step_vd_def)
    next
      case False
      with Pair RecorderStop assms show ?thesis
        by (auto simp: step_vd_def)
    qed
  next
    case (TimerFired h)
    have "one_session_vd (s\<lparr>timers_vd := clearTimer h (timers_vd s)\<rparr>)"
      by (rule one_session_frame [OF assms]) simp_all
    from one_session_stopRecording [OF this]
    have "one_session_vd (silenceTimeout_vd (s\<lparr>timers_vd := clearTimer h (timers_vd s)\<rparr>))"
      unfolding silenceTimeout_vd_def by (rule one_session_frame) simp_all
    with Pair TimerFired assms show ?thesis
      by (simp add: step_vd_def)
  next
    case (StartListening ok)
    with Pair show ?thesis
      by (auto intro!: one_session_frame [OF assms] simp: step_vd_def startListening_vd_def)
  next
    case (StopListening ok)
    have a: "one_session_vd (s\<lparr>subscribed_vd := False\<rparr>)"
      by (rule one_session_frame [OF assms]) simp_all
    have b: "one_session_vd (stopRecording_vd (s\<lparr>subscribed_vd := False\<rparr>))"
      by (rule one_session_stopRecording [OF a])
    have c: "one_session_vd
               (stopRecording_vd (s\<lparr>subscribed_vd := False\<rparr>)
                  \<lparr>isListeningRef_vd := False, error_vd := None\<rparr>)"
      by (rule one_session_frame [OF b]) simp_all
    have d: "one_session_vd
               (s\<lparr>subscribed_vd := False, isListeningRef_vd := False, error_vd := None\<rparr>)"
      by (rule one_session_frame [OF assms]) simp_all
    have e: "one_session_vd (s\<lparr>error_vd := Some ''Failed to stop listening''\<rparr>)"
      by (rule one_session_frame [OF assms]) simp_all
    from c d e assms Pair StopListening show ?thesis
      by (simp add: step_vd_def stopListening_vd_def Let_def)
  next
    case Unmount
    have "one_session_vd ((cleanup_vd s)\<lparr>unmounted_vd := True\<rparr>)"
      by (rule one_session_frame [OF one_session_cleanup [OF assms]]) simp_all
    with Pair Unmount show ?thesis
      by (simp add: step_vd_def)
  qed (use Pair assms in \<open>simp_all add: step_vd_def\<close>)
qed

lemma one_session_run:
  assumes "one_session_vd s"
  shows "one_session_vd (run_vd evs s)"
  using assms unfolding run_vd_def
  by (induction evs arbitrary: s) (simp_all add: one_session_step)

lemma at_most_one_filter:
  assumes "\<And>i j. i < length xs \<Longrightarrow> j < length xs \<Longrightarrow> P (xs ! i) \<Longrightarrow> P (xs ! j) \<Longrightarrow> i = j"
  shows "length (filter P xs) \<le> 1"
  using assms
proof (induction xs)
  case Nil
  then show ?case by simp
next
  case (Cons x xs)
  show ?case
  proof (cases "P x")
    case True
    have "\<not> P y" if "y \<in> set xs" for y
    proof
      assume py: "P y"
      from that obtain k where k: "k < length xs" "xs ! k = y"
        by (auto simp: in_set_conv_nth)
      from Cons.prems [of 0 "Suc k"] True py k show False by simp
    qed
    then have "filter P xs = []"
      by (simp add: filter_empty_conv)
    with True show ?thesis by simp
  next
    case False
    have "length (filter P xs) \<le> 1"
    proof (rule Cons.IH)
      fix i j
      assume "i < length xs" "j < length xs" "P (xs ! i)" "P (xs ! j)"
      with Cons.prems [of "Suc i" "Suc j"] show "i = j" by simp
    qed
    with False show ?thesis by simp
  qed
qed

text \<open>
  In VoiceDetector, whatever the callbacks delivered after initialisation and in
  whatever order, at most one recorder is recording or being finalised.
\<close>

theorem at_most_one_session_vd:
  "length (filter active (recorders_vd (run_vd evs initialized_vd))) \<le> 1"
proof (rule at_most_one_filter)
  fix i j
  assume a: "i < length (recorders_vd (run_vd evs initialized_vd))"
    "j < length (recorders_vd (run_vd evs initialized_vd))"
    "active (recorders_vd (run_vd evs initialized_vd) ! i)"
    "active (recorders_vd (run_vd evs initialized_vd) ! j)"
  have "one_session_vd initialized_vd"
    by (simp add: one_session_vd_def initialized_vd_def)
  from one_session_run [OF this, of evs]
  have inv: "one_session_vd (run_vd evs initialized_vd)" .
  from one_session_ref [OF inv a(1) a(3)] one_session_ref [OF inv a(2) a(4)]
  show "i = j" by simp
qed

section \<open>VoiceDetector: the silence debounce\<close>

lemma quiet_step:
  assumes "armed_after (t0 + SILENCE_DURATION_THRESHOLD_vd) s" "quiet_vd te" "t0 \<le> fst te"
    "fst te < t0 + SILENCE_DURATION_THRESHOLD_vd"
  shows "armed_after (t0 + SILENCE_DURATION_THRESHOLD_vd) (step_vd te s)
       \<and> recorders_vd (step_vd te s) = recorders_vd s
       \<and> audioClips_vd (step_vd te s) = audioClips_vd s"
proof (cases te)
  case (Pair now ev)
  show ?thesis
  proof (cases ev)
    case (Probability p)
    with Pair assms show ?thesis
      by (auto simp: step_vd_def handleVoiceProbability_vd_def handleSilenceDetected_vd_def
          quiet_vd_def armed_after_def)
  next
    case (DataAvailable r b)
    with Pair assms show ?thesis
      by (auto simp: step_vd_def ondataavailable_vd_def armed_after_def)
  next
    case (TimerFired h)
    from assms Pair have "\<not> due h now (timers_vd s)"
      by (fastforce simp: due_def armed_after_def)
    with Pair TimerFired assms show ?thesis
      by (simp add: step_vd_def)
  qed (use Pair assms in \<open>auto simp: quiet_vd_def\<close>)
qed

lemma quiet_run:
  assumes "armed_after (t0 + SILENCE_DURATION_THRESHOLD_vd) s"
    "\<forall>te \<in> set evs. quiet_vd te \<and> t0 \<le> fst te \<and> fst te < t0 + SILENCE_DURATION_THRESHOLD_vd"
  shows "armed_after (t0 + SILENCE_DURATION_THRESHOLD_vd) (run_vd evs s)
       \<and> recorders_vd (run_vd evs s) = recorders_vd s
       \<and> audioClips_vd (run_vd evs s) = audioClips_vd s"
  using assms
proof (induction evs arbitrary: s)
  case Nil
  then show ?case by (simp add: run_vd_def)
next
  case (Cons te evs)
  from quiet_step [of t0 s te] Cons.prems
  have st: "armed_after (t0 + SILENCE_DURATION_THRESHOLD_vd) (step_vd te s)"
    and r: "recorders_vd (step_vd te s) = recorders_vd s"
    and c: "audioClips_vd (step_vd te s) = audioClips_vd s"
    by auto
  from Cons.IH [OF st] Cons.prems r c show ?case
    by (simp add: run_vd_def)
qed

lemma voice_resumes:
  assumes "armed_after d s" "p \<ge> VOICE_PROBABILITY_THRESHOLD_vd"
  shows "timers_vd (step_vd (tv, Probability p) s) = []
       \<and> silenceTimeoutRef_vd (step_vd (tv, Probability p) s) = None
       \<and> recorders_vd (step_vd (tv, Probability p) s) = recorders_vd s
       \<and> audioClips_vd (step_vd (tv, Probability p) s) = audioClips_vd s
       \<and> isRecordingRef_vd (step_vd (tv, Probability p) s)"
proof (cases "silenceTimeoutRef_vd s")
  case None
  with assms have "\<forall>e \<in> set (timers_vd s). False"
    by (simp add: armed_after_def)
  then have "timers_vd s = []"
    by (cases "timers_vd s") auto
  with None assms show ?thesis
    by (simp add: step_vd_def handleVoiceProbability_vd_def handleVoiceDetected_vd_def
        armed_after_def)
next
  case (Some h)
  with assms have "clearTimer h (timers_vd s) = []"
    by (auto simp: armed_after_def clearTimer_def filter_empty_conv)
  with Some assms show ?thesis
    by (simp add: step_vd_def handleVoiceProbability_vd_def handleVoiceDetected_vd_def
        armed_after_def)
qed

lemma tracked_vd_frame:
  assumes "timer_tracked_vd s" "timers_vd s' = timers_vd s"
    "silenceTimeoutRef_vd s' = silenceTimeoutRef_vd s"
  shows "timer_tracked_vd s'"
  using assms by (simp add: timer_tracked_vd_def)

lemma tracked_vd_cleared:
  assumes "timer_tracked_vd s"
  shows "(case silenceTimeoutRef_vd s of None \<Rightarrow> timers_vd s
          | Some h \<Rightarrow> clearTimer h (timers_vd s)) = []"
proof (cases "silenceTimeoutRef_vd s")
  case None
  with assms have "\<forall>e \<in> set (timers_vd s). False" by (simp add: timer_tracked_vd_def)
  then have "timers_vd s = []" by (cases "timers_vd s") auto
  with None show ?thesis by simp
next
  case (Some h)
  with assms have "clearTimer h (timers_vd s) = []"
    by (auto simp: timer_tracked_vd_def clearTimer_def filter_empty_conv)
  with Some show ?thesis by simp
qed

lemma tracked_vd_voice:
  assumes "timer_tracked_vd s"
  shows "timers_vd (handleVoiceDetected_vd now s) = []"
    and "silenceTimeoutRef_vd (handleVoiceDetected_vd now s) = None"
  using tracked_vd_cleared [OF assms]
  by (cases "silenceTimeoutRef_vd s";
      simp add: handleVoiceDetected_vd_def startRecording_vd_def Let_def)+

lemma tracked_vd_stopRecording:
  assumes "timer_tracked_vd s"
  shows "timer_tracked_vd (stopRecording_vd s)"
  by (rule tracked_vd_frame [OF assms]) (simp_all add: stopRecording_vd_def)

lemma tracked_vd_step:
  assumes inv: "timer_tracked_vd s"
  shows "timer_tracked_vd (step_vd te s)"
proof (cases te)
  case (Pair now ev)
  show ?thesis
  proof (cases ev)
    case (Probability p)
    show ?thesis
    proof (cases "p \<ge> VOICE_PROBABILITY_THRESHOLD_vd")
      case True
      with tracked_vd_voice [OF inv, of now] Pair Probability show ?thesis
        by (simp add: step_vd_def handleVoiceProbability_vd_def timer_tracked_vd_def)
    next
      case False
      show ?thesis
      proof (cases "silenceTimeoutRef_vd s = None \<and> isRecordingRef_vd s")
        case True
        with tracked_vd_cleared [OF inv] have "timers_vd s = []" by simp
        with True False Pair Probability show ?thesis
          by (simp add: step_vd_def handleVoiceProbability_vd_def handleSilenceDetected_vd_def
              timer_tracked_vd_def)
      next
        case no: False
        with False Pair Probability inv show ?thesis
          by (auto simp: step_vd_def handleVoiceProbability_vd_def handleSilenceDetected_vd_def)
      qed
    qed
  next
    case (DataAvailable r b)
    with Pair show ?thesis
      by (auto intro!: tracked_vd_frame [OF inv] simp: step_vd_def ondataavailable_vd_def)
  next
    case (RecorderStop r)
    have "timer_tracked_vd (onstop_vd t now s')" if "timer_tracked_vd s'" for t s'
      by (rule tracked_vd_frame [OF that]) (simp_all add: onstop_vd_def Let_def)
    moreover have "timer_tracked_vd
        (s\<lparr>recorders_vd := (recorders_vd s)[r := mr_stopped (recorders_vd s ! r)]\<rparr>)"
      by (rule tracked_vd_frame [OF inv]) simp_all
    ultimately show ?thesis using Pair RecorderStop inv
      by (simp add: step_vd_def)
  next
    case (TimerFired h)
    have "timer_tracked_vd (silenceTimeout_vd (s\<lparr>timers_vd := clearTimer h (timers_vd s)\<rparr>))"
      if "due h now (timers_vd s)"
    proof -
      from that inv have ref: "silenceTimeoutRef_vd s = Some h"
        by (auto simp: due_def timer_tracked_vd_def)
      with tracked_vd_cleared [OF inv] have "clearTimer h (timers_vd s) = []" by simp
      then show ?thesis
        by (simp add: silenceTimeout_vd_def stopRecording_vd_def timer_tracked_vd_def)
    qed
    with Pair TimerFired inv show ?thesis
      by (simp add: step_vd_def)
  next
    case (StartListening ok)
    with Pair show ?thesis
      by (auto intro!: tracked_vd_frame [OF inv] simp: step_vd_def startListening_vd_def)
  next
    case (StopListening ok)
    have a: "timer_tracked_vd (s\<lparr>subscribed_vd := False\<rparr>)"
      by (rule tracked_vd_frame [OF inv]) simp_all
    have b: "timer_tracked_vd (stopRecording_vd (s\<lparr>subscribed_vd := False\<rparr>)
        \<lparr>isListeningRef_vd := False, error_vd := None\<rparr>)"
      by (rule tracked_vd_frame [OF tracked_vd_stopRecording [OF a]]) simp_all
    have c: "timer_tracked_vd
        (s\<lparr>subscribed_vd := False, isListeningRef_vd := False, error_vd := None\<rparr>)"
      by (rule tracked_vd_frame [OF inv]) simp_all
    have d: "timer_tracked_vd (s\<lparr>error_vd := Some ''Failed to stop listening''\<rparr>)"
      by (rule tracked_vd_frame [OF inv]) simp_all
    from b c d inv Pair StopListening show ?thesis
      by (simp add: step_vd_def stopListening_vd_def Let_def)
  next
    case Unmount
    with Pair show ?thesis
      by (auto intro!: tracked_vd_frame [OF inv] simp: step_vd_def cleanup_vd_def Let_def)
  qed (use Pair inv in \<open>simp_all add: step_vd_def\<close>)
qed

lemma tracked_vd_run:
  assumes "timer_tracked_vd s"
  shows "timer_tracked_vd (run_vd evs s)"
  using assms unfolding run_vd_def
  by (induction evs arbitrary: s) (simp_all add: tracked_vd_step)

text \<open>
  In VoiceDetector, in every state reached from initialisation, no timer is pending
  right after a voiced sample: the hypothesis of the debounce theorem holds whenever
  voice was present.
\<close>

lemma no_timer_after_voice_vd:
  assumes "p \<ge> VOICE_PROBABILITY_THRESHOLD_vd"
  shows "timers_vd (step_vd (t, Probability p) (run_vd evs initialized_vd)) = []"
proof -
  have "timer_tracked_vd initialized_vd"
    by (simp add: timer_tracked_vd_def initialized_vd_def)
  from tracked_vd_voice(1) [OF tracked_vd_run [OF this, of evs], of t] assms show ?thesis
    by (simp add: step_vd_def handleVoiceProbability_vd_def)
qed

text \<open>
  C2.  VoiceDetector is recording and no timer is pending (voice was present).  Then
  comes a silent stretch that starts at \<open>t0\<close>: sub-threshold probabilities, recorder
  data and timers the event loop looks at, all before \<open>t0 + SILENCE_DURATION_THRESHOLD\<close>;
  and before that time a probability at or over the threshold arrives.  Then at every
  point of the stretch the recorders are as they were (no \<open>stop()\<close> was called, no
  recorder was added) and no clip was produced, and after the voiced sample the
  same holds, the silence timer is cancelled (no timer is pending and
  \<open>silenceTimeoutRef\<close> is reset) and the recording goes on: one utterance, not two.
\<close>

theorem debounce_vd:
  assumes rec: "isRecordingRef_vd s"
    and idle: "timers_vd s = []"
    and run: "\<forall>te \<in> set evs. quiet_vd te \<and> t0 \<le> fst te
                \<and> fst te < t0 + SILENCE_DURATION_THRESHOLD_vd"
    and resume: "t0 \<le> tv" "tv < t0 + SILENCE_DURATION_THRESHOLD_vd"
      "p \<ge> VOICE_PROBABILITY_THRESHOLD_vd"
  shows "(\<forall>n. recorders_vd (run_vd (take n evs) s) = recorders_vd s
              \<and> audioClips_vd (run_vd (take n evs) s) = audioClips_vd s)
       \<and> recorders_vd (run_vd (evs @ [(tv, Probability p)]) s) = recorders_vd s
       \<and> audioClips_vd (run_vd (evs @ [(tv, Probability p)]) s) = audioClips_vd s
       \<and> timers_vd (run_vd (evs @ [(tv, Probability p)]) s) = []
       \<and> silenceTimeoutRef_vd (run_vd (evs @ [(tv, Probability p)]) s) = None
       \<and> isRecordingRef_vd (run_vd (evs @ [(tv, Probability p)]) s)"
proof -
  let ?d = "t0 + SILENCE_DURATION_THRESHOLD_vd"
  have a0: "armed_after ?d s"
    using rec idle by (simp add: armed_after_def)
  have pre: "recorders_vd (run_vd (take n evs) s) = recorders_vd s
           \<and> audioClips_vd (run_vd (take n evs) s) = audioClips_vd s" for n
  proof -
    have "\<forall>te \<in> set (take n evs). quiet_vd te \<and> t0 \<le> fst te \<and> fst te < ?d"
      using run by (meson in_set_takeD)
    from quiet_run [OF a0 this] show ?thesis by simp
  qed
  from quiet_run [OF a0 run]
  have a1: "armed_after ?d (run_vd evs s)"
    and r1: "recorders_vd (run_vd evs s) = recorders_vd s"
    and c1: "audioClips_vd (run_vd evs s) = audioClips_vd s"
    by auto
  from voice_resumes [OF a1 resume(3), where tv = tv] r1 c1 pre show ?thesis
    by (simp add: run_vd_snoc)
qed

text \<open>
  The theorem at the recording started at 1000 ms, a dip from 3000 ms to 3300 ms in
  which the silence timer (due at 4500 ms) is armed, and voice again at 3300 ms.
\<close>

theorem debounce_vd_witness:
  "isRecordingRef_vd recording_vd \<and> timers_vd recording_vd = []
   \<and> timers_vd (run_vd dip_vd recording_vd) = [(1, 4500)]
   \<and> recorders_vd (run_vd (dip_vd @ [(3300, Probability (1 / 2))]) recording_vd)
       = [mr_started 1000]
   \<and> audioClips_vd (run_vd (dip_vd @ [(3300, Probability (1 / 2))]) recording_vd) = []
   \<and> timers_vd (run_vd (dip_vd @ [(3300, Probability (1 / 2))]) recording_vd) = []
   \<and> silenceTimeoutRef_vd (run_vd (dip_vd @ [(3300, Probability (1 / 2))]) recording_vd) = None
   \<and> isRecordingRef_vd (run_vd (dip_vd @ [(3300, Probability (1 / 2))]) recording_vd)"
proof -
  have rec: "isRecordingRef_vd recording_vd" and idle: "timers_vd recording_vd = []"
    and recs: "recorders_vd recording_vd = [mr_started 1000]"
    and clips: "audioClips_vd recording_vd = []"
    by (simp_all add: recording_vd_eval initialized_vd_def)
  have run: "\<forall>te \<in> set dip_vd. quiet_vd te \<and> 3000 \<le> fst te
               \<and> fst te < 3000 + SILENCE_DURATION_THRESHOLD_vd"
    by (simp add: dip_vd_def quiet_vd_def VOICE_PROBABILITY_THRESHOLD_vd_def
        SILENCE_DURATION_THRESHOLD_vd_def)
  have armed: "timers_vd (run_vd dip_vd recording_vd) = [(1, 4500)]"
    by (simp add: recording_vd_eval dip_vd_def vd_eval)
  have "(3000::int) \<le> 3300" "(3300::int) < 3000 + SILENCE_DURATION_THRESHOLD_vd"
    "(1 / 2 :: rat) \<ge> VOICE_PROBABILITY_THRESHOLD_vd"
    by (simp_all add: SILENCE_DURATION_THRESHOLD_vd_def VOICE_PROBABILITY_THRESHOLD_vd_def)
  from debounce_vd [OF rec idle run this] rec idle recs clips armed show ?thesis
    by simp
qed

section \<open>The processing queue: order of transcription\<close>

lemma pump_ok:
  assumes "audioContextRef_q s"
  shows "queue_ok (pump_q s)"
    and "pending_q (pump_q s) = pending_q s"
    and "transcription_q (pump_q s) = transcription_q s"
    and "started_q (pump_q s) @ chained_q (pump_q s) = started_q s @ chained_q s"
  using assms
  by (cases "chained_q s"; auto simp: pump_q_def queue_ok_def pending_q_def split: option.splits)+

lemma submit_ok:
  assumes "queue_ok s"
  shows "queue_ok (processAndSendAudio_q b s)"
    and "pending_q (processAndSendAudio_q b s) = pending_q s @ [b]"
    and "transcription_q (processAndSendAudio_q b s) = transcription_q s"
    and "started_q (processAndSendAudio_q b s) @ chained_q (processAndSendAudio_q b s)
         = started_q s @ chained_q s @ [b]"
proof -
  let ?s1 = "s\<lparr>chained_q := chained_q s @ [b]\<rparr>"
  have ctx: "audioContextRef_q ?s1" using assms by (simp add: queue_ok_def)
  from pump_ok [OF ctx] show "queue_ok (processAndSendAudio_q b s)"
    and "pending_q (processAndSendAudio_q b s) = pending_q s @ [b]"
    and "transcription_q (processAndSendAudio_q b s) = transcription_q s"
    and "started_q (processAndSendAudio_q b s) @ chained_q (processAndSendAudio_q b s)
         = started_q s @ chained_q s @ [b]"
    by (simp_all add: processAndSendAudio_q_def pending_q_def)
qed

lemma settled_ok:
  assumes "queue_ok s" "inflight_q s = Some b"
  shows "queue_ok (settled_q now out s)"
    and "pending_q s = b # pending_q (settled_q now out s)"
    and "transcription_q (settled_q now out s) = merge_one (transcription_q s) out"
    and "started_q (settled_q now out s) @ chained_q (settled_q now out s)
         = started_q s @ chained_q s"
proof -
  let ?s1 = "case data_transcript out of
      Some v \<Rightarrow>
        s\<lparr>lastResponseTime_q := Some now,
          transcription_q := Some (appended (transcription_q s) v),
          isProcessing_q := False\<rparr>
    | None \<Rightarrow> s\<lparr>error_q := failure_message out, isProcessing_q := False\<rparr>"
  have eq: "settled_q now out s = pump_q (?s1\<lparr>inflight_q := None\<rparr>)"
    using assms by (simp add: settled_q_def)
  have ctx: "audioContextRef_q (?s1\<lparr>inflight_q := None\<rparr>)"
    using assms by (cases out) (simp_all add: queue_ok_def)
  have p: "pending_q (?s1\<lparr>inflight_q := None\<rparr>) = chained_q s"
    by (cases out) (simp_all add: pending_q_def)
  have t: "transcription_q (?s1\<lparr>inflight_q := None\<rparr>) = merge_one (transcription_q s) out"
    by (cases out) simp_all
  have c: "started_q (?s1\<lparr>inflight_q := None\<rparr>) @ chained_q (?s1\<lparr>inflight_q := None\<rparr>)
      = started_q s @ chained_q s"
    by (cases out) simp_all
  from pump_ok [OF ctx] p t c assms show "queue_ok (settled_q now out s)"
    and "pending_q s = b # pending_q (settled_q now out s)"
    and "transcription_q (settled_q now out s) = merge_one (transcription_q s) out"
    and "started_q (settled_q now out s) @ chained_q (settled_q now out s)
         = started_q s @ chained_q s"
    by (simp_all add: eq pending_q_def)
qed

lemma run_dispatch_fifo:
  assumes "queue_ok s" "inflight_q (run_dispatch net evs s) = None"
  shows "transcription_q (run_dispatch net evs s)
           = merge_transcripts (transcription_q s) (map net (pending_q s @ submits evs))
       \<and> started_q (run_dispatch net evs s) = started_q s @ chained_q s @ submits evs
       \<and> chained_q (run_dispatch net evs s) = []"
  using assms
proof (induction evs arbitrary: s)
  case Nil
  then show ?case
    by (simp add: run_dispatch_def merge_transcripts_def pending_q_def queue_ok_def)
next
  case (Cons ev evs)
  show ?case
  proof (cases ev)
    case (Submit b)
    let ?s1 = "processAndSendAudio_q b s"
    have run: "run_dispatch net (ev # evs) s = run_dispatch net evs ?s1"
      using Submit by (simp add: run_dispatch_def dispatch_def)
    from Cons.IH [OF submit_ok(1) [OF Cons.prems(1)], of b] Cons.prems(2) run
    have "transcription_q (run_dispatch net evs ?s1)
           = merge_transcripts (transcription_q ?s1) (map net (pending_q ?s1 @ submits evs))
       \<and> started_q (run_dispatch net evs ?s1) = started_q ?s1 @ chained_q ?s1 @ submits evs
       \<and> chained_q (run_dispatch net evs ?s1) = []"
      by simp
    with submit_ok(2-4) [OF Cons.prems(1), of b] run Submit show ?thesis
      by simp
  next
    case (Done now)
    show ?thesis
    proof (cases "inflight_q s")
      case None
      with Done have run: "run_dispatch net (ev # evs) s = run_dispatch net evs s"
        by (simp add: run_dispatch_def dispatch_def)
      from Cons.IH [OF Cons.prems(1)] Cons.prems(2) run Done show ?thesis by simp
    next
      case (Some b)
      let ?s1 = "settled_q now (net b) s"
      from Some Done have run: "run_dispatch net (ev # evs) s = run_dispatch net evs ?s1"
        by (simp add: run_dispatch_def dispatch_def)
      from Cons.IH [OF settled_ok(1) [OF Cons.prems(1) Some]] Cons.prems(2) run
      have "transcription_q (run_dispatch net evs ?s1)
           = merge_transcripts (transcription_q ?s1) (map net (pending_q ?s1 @ submits evs))
       \<and> started_q (run_dispatch net evs ?s1) = started_q ?s1 @ chained_q ?s1 @ submits evs
       \<and> chained_q (run_dispatch net evs ?s1) = []"
        by simp
      with settled_ok(2-4) [OF Cons.prems(1) Some, of now "net b"] run Done show ?thesis
        by (simp add: merge_transcripts_def)
    qed
  qed
qed

lemma run_dispatch_prefix:
  assumes "queue_ok s"
  shows "queue_ok (run_dispatch net evs s)
       \<and> started_q (run_dispatch net evs s) @ chained_q (run_dispatch net evs s)
           = started_q s @ chained_q s @ submits evs"
  using assms
proof (induction evs arbitrary: s)
  case Nil
  then show ?case by (simp add: run_dispatch_def)
next
  case (Cons ev evs)
  show ?case
  proof (cases ev)
    case (Submit b)
    have run: "run_dispatch net (ev # evs) s = run_dispatch net evs (processAndSendAudio_q b s)"
      using Submit by (simp add: run_dispatch_def dispatch_def)
    from Cons.IH [OF submit_ok(1) [OF Cons.prems], of b] submit_ok(4) [OF Cons.prems, of b]
      run Submit
    show ?thesis by simp
  next
    case (Done now)
    show ?thesis
    proof (cases "inflight_q s")
      case None
      with Done have "run_dispatch net (ev # evs) s = run_dispatch net evs s"
        by (simp add: run_dispatch_def dispatch_def)
      with Cons.IH [OF Cons.prems] Done show ?thesis by simp
    next
      case (Some b)
      with Done have run:
        "run_dispatch net (ev # evs) s = run_dispatch net evs (settled_q now (net b) s)"
        by (simp add: run_dispatch_def dispatch_def)
      from Cons.IH [OF settled_ok(1) [OF Cons.prems Some]]
        settled_ok(4) [OF Cons.prems Some, of now "net b"] run Done
      show ?thesis by simp
    qed
  qed
qed

lemmas dispatch_eval = run_dispatch_def dispatch_def processAndSendAudio_q_def pump_q_def
  settled_q_def initialized_q_def merge_transcripts_def Let_def

text \<open>
  C4.  Clips are submitted to an idle dispatcher and requests settle, in any
  interleaving, until no request is outstanding.  Then the transcript is the
  transcripts of the submitted clips that succeeded, joined in submission order
  onto what was there before (a response without a transcript contributes the text
  \<open>undefined\<close> at its place); the clips whose processing started are the submitted
  clips, in submission order; and at every point of the schedule the clips started
  so far followed by the clips still chained are the clips submitted so far, in
  order, so that the request of a later clip starts only when every earlier clip is
  settled.  Only one request is outstanding at a time, so the order in which the
  service would answer concurrent requests has no influence.
\<close>

theorem transcript_in_submission_order:
  assumes ctx: "audioContextRef_q s" and idle: "inflight_q s = None" "chained_q s = []"
    and fin: "inflight_q (run_dispatch net evs s) = None"
  shows "transcription_q (run_dispatch net evs s)
           = merge_transcripts (transcription_q s) (map net (submits evs))
       \<and> started_q (run_dispatch net evs s) = started_q s @ submits evs
       \<and> (\<forall>n. started_q (run_dispatch net (take n evs) s)
                 @ chained_q (run_dispatch net (take n evs) s)
               = started_q s @ submits (take n evs))"
proof -
  have ok: "queue_ok s" using ctx idle by (simp add: queue_ok_def)
  have p: "pending_q s = []" using idle by (simp add: pending_q_def)
  from run_dispatch_fifo [OF ok fin] run_dispatch_prefix [OF ok, of net] p idle
  show ?thesis by simp
qed

theorem transcript_in_submission_order_witness:
  "transcription_q (run_dispatch all_success_net burst_schedule initialized_q)
     = Some (Text ''alpha beta gamma'')
   \<and> started_q (run_dispatch all_success_net burst_schedule initialized_q)
       = [clipA, clipB, clipC]
   \<and> inflight_q (run_dispatch all_success_net (take 3 burst_schedule) initialized_q)
       = Some clipA
   \<and> chained_q (run_dispatch all_success_net (take 3 burst_schedule) initialized_q)
       = [clipB, clipC]"
proof -
  have fin: "inflight_q (run_dispatch all_success_net burst_schedule initialized_q) = None"
    by (simp add: dispatch_eval burst_schedule_def all_success_net_def clipA_def clipB_def
        clipC_def)
  have ctx: "audioContextRef_q initialized_q" "inflight_q initialized_q = None"
    "chained_q initialized_q = []" "started_q initialized_q = []"
    "transcription_q initialized_q = None"
    by (simp_all add: initialized_q_def)
  have mid: "inflight_q (run_dispatch all_success_net (take 3 burst_schedule) initialized_q)
       = Some clipA
     \<and> chained_q (run_dispatch all_success_net (take 3 burst_schedule) initialized_q)
       = [clipB, clipC]"
    by (simp add: dispatch_eval burst_schedule_def)
  from transcript_in_submission_order [OF ctx(1-3) fin] ctx(4,5) mid show ?thesis
    by (simp add: burst_schedule_def merge_transcripts_def all_success_net_def clipA_def
        clipB_def clipC_def appended_def toText_def)
qed

section \<open>The processing queue: a failed job\<close>



section \<open>The processing-queue component: its invariant\<close>

lemma set_clearTimer: "set (clearTimer h ts) = {e \<in> set ts. fst e \<noteq> h}"
  by (auto simp: clearTimer_def)

lemma sessions_ref:
  assumes "sessions_ok_q s" "i < length (recorders_q s)" "active (recorders_q s ! i)"
  shows "mediaRecorderRef_q s = Some i" "isRecordingRef_q s"
  using assms unfolding sessions_ok_q_def by blast+

lemma idle_no_recording:
  assumes "sessions_ok_q s" "\<not> isRecordingRef_q s"
  shows "current_state (recorders_q s) (mediaRecorderRef_q s) \<noteq> Some Recording"
    and "\<And>i. i < length (recorders_q s) \<Longrightarrow> \<not> active (recorders_q s ! i)"
proof -
  show a: "\<not> active (recorders_q s ! i)" if "i < length (recorders_q s)" for i
    using assms that sessions_ref(2) [of s i] by auto
  show "current_state (recorders_q s) (mediaRecorderRef_q s) \<noteq> Some Recording"
    using a by (auto simp: current_state_def active_def split: option.splits)
qed

lemma inv_stopRecording:
  assumes "inv_q s"
  shows "inv_q (stopRecording_q s)"
proof -
  have s: "sessions_ok_q (stopRecording_q s)"
    using assms
    by (auto simp: inv_q_def sessions_ok_q_def stopRecording_q_def nth_list_update active_def
        mr_stop_def current_state_def Let_def split: option.splits if_splits)
  have t: "timer_ok_q (stopRecording_q s) e" if "e \<in> set (timers_q (stopRecording_q s))" for e
  proof -
    from that have e: "e \<in> set (timers_q s)"
      by (auto simp: stopRecording_q_def Let_def set_clearTimer split: option.splits if_splits)
    with assms have ok: "timer_ok_q s e" by (simp add: inv_q_def)
    show ?thesis
    proof (cases "snd (snd e)")
      case SilenceTimer
      with ok show ?thesis
        by (auto simp: timer_ok_q_def stopRecording_q_def Let_def split: option.splits)
    next
      case (MaxDurationTimer r)
      with ok have "recordingTimeoutRef_q s = Some (fst e)"
        by (simp add: timer_ok_q_def)
      with that have False
        by (auto simp: stopRecording_q_def Let_def set_clearTimer split: option.splits if_splits)
      then show ?thesis ..
    qed
  qed
  from s t show ?thesis by (simp add: inv_q_def)
qed

lemma inv_startRecording:
  assumes "inv_q s" "\<not> isRecordingRef_q s"
  shows "inv_q (startRecording_q now s)"
proof (cases "\<not> streamRef_q s \<or> \<not> recorderOk_q s")
  case True
  with assms show ?thesis
    by (auto simp: startRecording_q_def inv_q_def sessions_ok_q_def timer_ok_q_def
        split: timer_kind.splits)
next
  case False
  from assms have sess: "sessions_ok_q s" by (simp add: inv_q_def)
  note idle = idle_no_recording [OF sess assms(2)]
  have eq: "startRecording_q now s =
      s\<lparr>recorders_q := recorders_q s @ [mr_started now],
        mediaRecorderRef_q := Some (length (recorders_q s)),
        chunksRef_q := [], recordingStartTimeRef_q := Some now, isRecordingRef_q := True,
        recordingTimeoutRef_q := Some (nextTimer_q s),
        timers_q := timers_q s @
          [(nextTimer_q s, now + MAX_RECORDING_DURATION_q, MaxDurationTimer (length (recorders_q s)))],
        nextTimer_q := Suc (nextTimer_q s)\<rparr>"
    using False idle(1) by (simp add: startRecording_q_def)
  have s: "sessions_ok_q (startRecording_q now s)"
    unfolding eq using sess idle(2)
    by (auto simp: sessions_ok_q_def nth_append mr_started_def less_Suc_eq)
  have t: "timer_ok_q (startRecording_q now s) e" if "e \<in> set (timers_q (startRecording_q now s))" for e
  proof (cases "e \<in> set (timers_q s)")
    case True
    with assms have ok: "timer_ok_q s e" by (simp add: inv_q_def)
    show ?thesis
    proof (cases "snd (snd e)")
      case SilenceTimer
      with ok show ?thesis by (simp add: eq timer_ok_q_def)
    next
      case (MaxDurationTimer r)
      with ok idle(2) [of r] show ?thesis by (simp add: timer_ok_q_def active_def)
    qed
  next
    case False
    with that have "e = (nextTimer_q s, now + MAX_RECORDING_DURATION_q,
        MaxDurationTimer (length (recorders_q s)))"
      by (simp add: eq)
    then show ?thesis
      by (simp add: eq timer_ok_q_def mr_started_def)
  qed
  from s t show ?thesis by (simp add: inv_q_def)
qed


lemma timer_ok_frame:
  assumes "timer_ok_q s e" "recorders_q s' = recorders_q s"
    "mediaRecorderRef_q s' = mediaRecorderRef_q s"
    "silenceTimeoutRef_q s' = silenceTimeoutRef_q s"
    "recordingTimeoutRef_q s' = recordingTimeoutRef_q s"
  shows "timer_ok_q s' e"
  using assms by (simp add: timer_ok_q_def split: timer_kind.splits)

lemma inv_frame:
  assumes "inv_q s" "recorders_q s' = recorders_q s" "mediaRecorderRef_q s' = mediaRecorderRef_q s"
    "isRecordingRef_q s' = isRecordingRef_q s" "timers_q s' = timers_q s"
    "silenceTimeoutRef_q s' = silenceTimeoutRef_q s"
    "recordingTimeoutRef_q s' = recordingTimeoutRef_q s"
  shows "inv_q s'"
  using assms timer_ok_frame [of s _ s']
  by (simp add: inv_q_def sessions_ok_q_def)

lemma inv_clear:
  assumes "inv_q s"
  shows "inv_q (s\<lparr>timers_q := clearTimer h (timers_q s)\<rparr>)"
proof -
  have "timer_ok_q (s\<lparr>timers_q := clearTimer h (timers_q s)\<rparr>) e" if "timer_ok_q s e" for e
    by (rule timer_ok_frame [OF that]) simp_all
  with assms show ?thesis
    by (simp add: inv_q_def sessions_ok_q_def set_clearTimer)
qed

lemma sessions_frame:
  assumes "sessions_ok_q s" "recorders_q s' = recorders_q s"
    "mediaRecorderRef_q s' = mediaRecorderRef_q s" "isRecordingRef_q s' = isRecordingRef_q s"
  shows "sessions_ok_q s'"
  using assms by (simp add: sessions_ok_q_def)

lemma timer_ok_silence:
  "snd (snd e) = SilenceTimer \<Longrightarrow> timer_ok_q s e = (silenceTimeoutRef_q s = Some (fst e))"
  by (simp add: timer_ok_q_def)

lemma timer_ok_max_frame:
  assumes "timer_ok_q s e" "snd (snd e) \<noteq> SilenceTimer" "recorders_q s' = recorders_q s"
    "mediaRecorderRef_q s' = mediaRecorderRef_q s"
    "recordingTimeoutRef_q s' = recordingTimeoutRef_q s"
  shows "timer_ok_q s' e"
  using assms by (cases "snd (snd e)") (simp_all add: timer_ok_q_def)

lemma inv_clear_silence:
  assumes inv: "inv_q s" and ref: "silenceTimeoutRef_q s = Some h"
  shows "inv_q (s\<lparr>timers_q := clearTimer h (timers_q s), silenceTimeoutRef_q := None\<rparr>)"
    (is "inv_q ?s'")
proof -
  have s: "sessions_ok_q ?s'"
    by (rule sessions_frame [of s]) (use inv in \<open>simp_all add: inv_q_def\<close>)
  have t: "timer_ok_q ?s' e" if "e \<in> set (timers_q ?s')" for e
  proof -
    from that have e: "e \<in> set (timers_q s)" "fst e \<noteq> h" by (simp_all add: set_clearTimer)
    with inv have ok: "timer_ok_q s e" by (simp add: inv_q_def)
    with e ref have "snd (snd e) \<noteq> SilenceTimer" by (auto simp: timer_ok_silence)
    from timer_ok_max_frame [OF ok this] show ?thesis by simp
  qed
  from s t show ?thesis by (simp add: inv_q_def)
qed

lemma inv_handleVoiceDetected:
  assumes "inv_q s"
  shows "inv_q (handleVoiceDetected_q now s)"
proof -
  let ?s1 = "case silenceTimeoutRef_q s of None \<Rightarrow> s
    | Some h \<Rightarrow> s\<lparr>timers_q := clearTimer h (timers_q s), silenceTimeoutRef_q := None\<rparr>"
  have s1: "inv_q ?s1"
    using assms inv_clear_silence [OF assms] by (simp split: option.splits)
  have "isRecordingRef_q ?s1 = isRecordingRef_q s"
    by (simp split: option.splits)
  with s1 inv_startRecording [OF s1, of now] show ?thesis
    by (auto simp: handleVoiceDetected_q_def Let_def)
qed

lemma inv_handleSilenceDetected:
  assumes inv: "inv_q s"
  shows "inv_q (handleSilenceDetected_q now s)"
proof (cases "silenceTimeoutRef_q s = None \<and> isRecordingRef_q s")
  case True
  let ?e = "(nextTimer_q s, now + SILENCE_DURATION_THRESHOLD_q, SilenceTimer)"
  let ?s' = "s\<lparr>silenceTimeoutRef_q := Some (nextTimer_q s), timers_q := timers_q s @ [?e],
      nextTimer_q := Suc (nextTimer_q s)\<rparr>"
  have eq: "handleSilenceDetected_q now s = ?s'"
    using True by (simp add: handleSilenceDetected_q_def)
  have s: "sessions_ok_q ?s'"
    by (rule sessions_frame [of s]) (use inv in \<open>simp_all add: inv_q_def\<close>)
  have t: "timer_ok_q ?s' e" if "e \<in> set (timers_q ?s')" for e
  proof (cases "e = ?e")
    case True
    then show ?thesis by (simp add: timer_ok_q_def)
  next
    case False
    with that have e: "e \<in> set (timers_q s)" by simp
    with inv have ok: "timer_ok_q s e" by (simp add: inv_q_def)
    with True have "snd (snd e) \<noteq> SilenceTimer" by (auto simp: timer_ok_silence)
    from timer_ok_max_frame [OF ok this] show ?thesis by simp
  qed
  from s t show ?thesis unfolding eq by (simp add: inv_q_def)
next
  case False
  with assms show ?thesis by (auto simp: handleSilenceDetected_q_def)
qed

lemma startNext_frame:
  "chunksRef_q (startNext_q bs s) = chunksRef_q s"
  "recorders_q (startNext_q bs s) = recorders_q s"
  "timers_q (startNext_q bs s) = timers_q s"
  "isRecordingRef_q (startNext_q bs s) = isRecordingRef_q s"
  "mediaRecorderRef_q (startNext_q bs s) = mediaRecorderRef_q s"
  "silenceTimeoutRef_q (startNext_q bs s) = silenceTimeoutRef_q s"
  "recordingTimeoutRef_q (startNext_q bs s) = recordingTimeoutRef_q s"
  "isListeningRef_q (startNext_q bs s) = isListeningRef_q s"
  "streamRef_q (startNext_q bs s) = streamRef_q s"
  "recorderOk_q (startNext_q bs s) = recorderOk_q s"
  "nextTimer_q (startNext_q bs s) = nextTimer_q s"
  "recordingStartTimeRef_q (startNext_q bs s) = recordingStartTimeRef_q s"
  by (induction bs arbitrary: s; simp)+

lemma pump_frame:
  "chunksRef_q (pump_q s) = chunksRef_q s"
  "recorders_q (pump_q s) = recorders_q s"
  "timers_q (pump_q s) = timers_q s"
  "isRecordingRef_q (pump_q s) = isRecordingRef_q s"
  "mediaRecorderRef_q (pump_q s) = mediaRecorderRef_q s"
  "silenceTimeoutRef_q (pump_q s) = silenceTimeoutRef_q s"
  "recordingTimeoutRef_q (pump_q s) = recordingTimeoutRef_q s"
  "isListeningRef_q (pump_q s) = isListeningRef_q s"
  "streamRef_q (pump_q s) = streamRef_q s"
  "recorderOk_q (pump_q s) = recorderOk_q s"
  "nextTimer_q (pump_q s) = nextTimer_q s"
  "recordingStartTimeRef_q (pump_q s) = recordingStartTimeRef_q s"
  by (simp_all add: pump_q_def startNext_frame)

lemma inv_settled:
  assumes "inv_q s"
  shows "inv_q (settled_q now out s)"
  by (rule inv_frame [OF assms])
    (cases out; simp add: settled_q_def pump_frame split: option.splits)+

lemma inv_onstop:
  assumes inv: "inv_q s" and r: "r < length (recorders_q s)"
    and st: "mr_stopping (recorders_q s ! r)"
  shows "inv_q (onstop_q now
           (s\<lparr>recorders_q := (recorders_q s)[r := mr_stopped (recorders_q s ! r)]\<rparr>))"
proof -
  let ?recs = "(recorders_q s)[r := mr_stopped (recorders_q s ! r)]"
  let ?s' = "onstop_q now (s\<lparr>recorders_q := ?recs\<rparr>)"
  from inv have sess: "sessions_ok_q s" by (simp add: inv_q_def)
  have ref: "mediaRecorderRef_q s = Some r"
    using sessions_ref(1) [OF sess r] st by (simp add: active_def)
  have inact: "mr_state (recorders_q s ! r) = Inactive"
    using sess r st by (simp add: sessions_ok_q_def)
  have fields: "recorders_q ?s' = ?recs" "mediaRecorderRef_q ?s' = mediaRecorderRef_q s"
    "\<not> isRecordingRef_q ?s'" "timers_q ?s' = timers_q s"
    "silenceTimeoutRef_q ?s' = silenceTimeoutRef_q s"
    "recordingTimeoutRef_q ?s' = recordingTimeoutRef_q s"
    by (simp_all add: onstop_q_def Let_def processAndSendAudio_q_def pump_frame)
  have idle: "\<not> active (?recs ! i)" if "i < length (recorders_q s)" for i
  proof (cases "i = r")
    case True
    with r inact show ?thesis by (simp add: active_def mr_stopped_def)
  next
    case False
    with sessions_ref(1) [OF sess that] ref show ?thesis by auto
  qed
  have s: "sessions_ok_q ?s'"
    using idle by (auto simp: sessions_ok_q_def fields active_def)
  have t: "timer_ok_q ?s' e" if "e \<in> set (timers_q ?s')" for e
  proof -
    from that inv have ok: "timer_ok_q s e" by (simp add: fields inv_q_def)
    show ?thesis
    proof (cases "snd (snd e)")
      case SilenceTimer
      with ok show ?thesis by (simp add: timer_ok_q_def fields)
    next
      case (MaxDurationTimer r')
      with ok ref inact have False by (simp add: timer_ok_q_def)
      then show ?thesis ..
    qed
  qed
  from s t show ?thesis by (simp add: inv_q_def)
qed

lemma dueTimer_in:
  assumes "dueTimer_q h now ts = Some k"
  shows "\<exists>d. (h, d, k) \<in> set ts \<and> d \<le> now"
proof -
  from assms obtain e es where f: "filter (\<lambda>e. fst e = h \<and> fst (snd e) \<le> now) ts = e # es"
    and k: "k = snd (snd e)"
    by (auto simp: dueTimer_q_def split: list.splits)
  from f have "e \<in> set (filter (\<lambda>e. fst e = h \<and> fst (snd e) \<le> now) ts)" by simp
  then have "e \<in> set ts" "fst e = h" "fst (snd e) \<le> now" by auto
  with k show ?thesis by (cases e) auto
qed

lemma inv_timer:
  assumes inv: "inv_q s" and due: "dueTimer_q h now (timers_q s) = Some k"
  shows "inv_q (timerCallback_q k (s\<lparr>timers_q := clearTimer h (timers_q s)\<rparr>))"
proof -
  let ?s1 = "s\<lparr>timers_q := clearTimer h (timers_q s)\<rparr>"
  from dueTimer_in [OF due] obtain d where e: "(h, d, k) \<in> set (timers_q s)" by blast
  with inv have ok: "timer_ok_q s (h, d, k)" by (simp add: inv_q_def)
  have s1: "inv_q ?s1" by (rule inv_clear [OF inv])
  show ?thesis
  proof (cases k)
    case SilenceTimer
    with ok have ref: "silenceTimeoutRef_q s = Some h" by (simp add: timer_ok_q_def)
    have a: "inv_q (stopRecording_q ?s1)" by (rule inv_stopRecording [OF s1])
    have nosil: "snd (snd e') \<noteq> SilenceTimer" if "e' \<in> set (timers_q (stopRecording_q ?s1))" for e'
    proof
      assume sil: "snd (snd e') = SilenceTimer"
      from that have in1: "e' \<in> set (timers_q ?s1)"
        by (auto simp: stopRecording_q_def Let_def set_clearTimer split: option.splits if_splits)
      then have "e' \<in> set (timers_q s)" "fst e' \<noteq> h" by (simp_all add: set_clearTimer)
      with inv sil ref show False by (auto simp: inv_q_def timer_ok_q_def)
    qed
    have "inv_q ((stopRecording_q ?s1)\<lparr>silenceTimeoutRef_q := None\<rparr>)" (is "inv_q ?s2")
    proof -
      have s: "sessions_ok_q ?s2"
        by (rule sessions_frame [of "stopRecording_q ?s1"]) (use a in \<open>simp_all add: inv_q_def\<close>)
      have t: "timer_ok_q ?s2 e'" if "e' \<in> set (timers_q ?s2)" for e'
      proof -
        from that have in2: "e' \<in> set (timers_q (stopRecording_q ?s1))" by simp
        with a have ok: "timer_ok_q (stopRecording_q ?s1) e'" by (simp add: inv_q_def)
        from timer_ok_max_frame [OF ok nosil [OF in2]] show ?thesis by simp
      qed
      from s t show ?thesis by (simp add: inv_q_def)
    qed
    with SilenceTimer show ?thesis by (simp add: timerCallback_q_def)
  next
    case (MaxDurationTimer r)
    with s1 inv_stopRecording [OF s1] show ?thesis by (simp add: timerCallback_q_def)
  qed
qed

lemma inv_step:
  assumes inv: "inv_q s" and mounted: "snd te \<noteq> Unmount"
  shows "inv_q (step_q te s)"
proof (cases te)
  case (Pair now ev)
  show ?thesis
  proof (cases ev)
    case (Probability p)
    with Pair inv_handleVoiceDetected [OF inv] inv_handleSilenceDetected [OF inv]
    show ?thesis by (simp add: step_q_def handleVoiceProbability_q_def)
  next
    case (DataAvailable r b)
    with Pair show ?thesis
      by (auto intro!: inv_frame [OF inv] simp: step_q_def ondataavailable_q_def)
  next
    case (RecorderStop r)
    with Pair inv inv_onstop [OF inv, of r] show ?thesis
      by (simp add: step_q_def)
  next
    case (TimerFired h)
    with Pair inv inv_timer [OF inv, of h now] show ?thesis
      by (simp add: step_q_def split: option.splits)
  next
    case (StartListening ok)
    with Pair show ?thesis
      by (auto intro!: inv_frame [OF inv] simp: step_q_def startListening_q_def)
  next
    case (StopListening ok)
    have a: "inv_q (s\<lparr>subscribed_q := False\<rparr>)"
      by (rule inv_frame [OF inv]) simp_all
    have b: "inv_q (stopRecording_q (s\<lparr>subscribed_q := False\<rparr>)
        \<lparr>isListeningRef_q := False, error_q := None\<rparr>)"
      by (rule inv_frame [OF inv_stopRecording [OF a]]) simp_all
    have c: "inv_q (s\<lparr>subscribed_q := False, isListeningRef_q := False, error_q := None\<rparr>)"
      by (rule inv_frame [OF inv]) simp_all
    have d: "inv_q (s\<lparr>error_q := Some ''Failed to stop listening''\<rparr>)"
      by (rule inv_frame [OF inv]) simp_all
    from b c d inv Pair StopListening show ?thesis
      by (simp add: step_q_def stopListening_q_def Let_def)
  next
    case Unmount
    with Pair mounted show ?thesis by simp
  next
    case (Settled out)
    with Pair inv_settled [OF inv] show ?thesis by (simp add: step_q_def)
  qed (use Pair inv in \<open>simp_all add: step_q_def\<close>)
qed

text \<open>The invariant holds as long as the component is mounted.\<close>

lemma inv_run:
  assumes "inv_q s" "\<forall>te \<in> set evs. snd te \<noteq> Unmount"
  shows "inv_q (run_q evs s)"
  using assms unfolding run_q_def
  by (induction evs arbitrary: s) (simp_all add: inv_step)

lemma inv_initialized: "inv_q initialized_q"
  by (simp add: inv_q_def sessions_ok_q_def initialized_q_def)

section \<open>The processing-queue component: the maximum recording duration\<close>

lemmas q_handlers = step_q_def handleVoiceProbability_q_def handleVoiceDetected_q_def
  handleSilenceDetected_q_def startRecording_q_def stopRecording_q_def timerCallback_q_def
  ondataavailable_q_def onstop_q_def startListening_q_def stopListening_q_def cleanup_q_def
  settled_q_def processAndSendAudio_q_def pump_q_def commit_q_def tracksEnded_def

lemmas q_eval = run_q_def q_handlers initialized_q_def current_state_def mr_started_def
  mr_stop_def mr_stopped_def clearTimer_def dueTimer_q_def newBlob_def startTimeOr0_def
  VOICE_PROBABILITY_THRESHOLD_q_def SILENCE_DURATION_THRESHOLD_q_def
  MIN_RECORDING_DURATION_q_def MAX_RECORDING_DURATION_q_def Let_def

lemma run_q_snoc: "run_q (evs @ [te]) s = step_q te (run_q evs s)"
  by (simp add: run_q_def)

lemma idle_timers_cleared:
  assumes inv: "inv_q s" and idle: "\<not> isRecordingRef_q s"
  shows "(case silenceTimeoutRef_q s of None \<Rightarrow> timers_q s
          | Some h \<Rightarrow> clearTimer h (timers_q s)) = []"
proof -
  from inv have sess: "sessions_ok_q s" by (simp add: inv_q_def)
  have sil: "snd (snd e) = SilenceTimer \<and> silenceTimeoutRef_q s = Some (fst e)"
    if e: "e \<in> set (timers_q s)" for e
  proof (cases "snd (snd e)")
    case SilenceTimer
    from inv e have "timer_ok_q s e" by (simp add: inv_q_def)
    with SilenceTimer show ?thesis by (simp add: timer_ok_silence)
  next
    case (MaxDurationTimer r)
    with inv e have "r < length (recorders_q s)" "mr_state (recorders_q s ! r) = Recording"
      by (auto simp: inv_q_def timer_ok_q_def)
    with idle_no_recording(2) [OF sess idle, of r] have False by (simp add: active_def)
    then show ?thesis ..
  qed
  show ?thesis
  proof (cases "silenceTimeoutRef_q s")
    case None
    with sil have "\<forall>e \<in> set (timers_q s). False" by auto
    then have "timers_q s = []" by (cases "timers_q s") auto
    with None show ?thesis by simp
  next
    case (Some h)
    with sil have "clearTimer h (timers_q s) = []"
      by (auto simp: clearTimer_def filter_empty_conv)
    with Some show ?thesis by simp
  qed
qed

lemma session_starts:
  assumes inv: "inv_q s" and idle: "\<not> isRecordingRef_q s" "isListeningRef_q s" "streamRef_q s"
    "recorderOk_q s" and p: "p \<ge> VOICE_PROBABILITY_THRESHOLD_q"
  shows "running_q (t0 + MAX_RECORDING_DURATION_q) (nextTimer_q s) (length (recorders_q s))
           (step_q (t0, Probability p) s)
       \<and> recorders_q (step_q (t0, Probability p) s) = recorders_q s @ [mr_started t0]"
proof -
  from inv have sess: "sessions_ok_q s" by (simp add: inv_q_def)
  note norec = idle_no_recording(1) [OF sess idle(1)]
  note cleared = idle_timers_cleared [OF inv idle(1)]
  show ?thesis
  proof (cases "silenceTimeoutRef_q s")
    case None
    with cleared norec idle p show ?thesis
      by (simp add: step_q_def handleVoiceProbability_q_def handleVoiceDetected_q_def
          startRecording_q_def running_q_def)
  next
    case (Some h)
    with cleared norec idle p show ?thesis
      by (simp add: step_q_def handleVoiceProbability_q_def handleVoiceDetected_q_def
          startRecording_q_def running_q_def)
  qed
qed

lemma voiced_step:
  assumes run: "running_q d h r s" and ev: "voiced_q te" "fst te < d"
  shows "running_q d h r (step_q te s) \<and> recorders_q (step_q te s) = recorders_q s"
proof (cases te)
  case (Pair now ev')
  show ?thesis
  proof (cases ev')
    case (Probability p)
    with Pair assms show ?thesis
      by (simp add: step_q_def handleVoiceProbability_q_def handleVoiceDetected_q_def
          voiced_q_def running_q_def)
  next
    case (DataAvailable r' b)
    with Pair assms show ?thesis
      by (simp add: step_q_def ondataavailable_q_def running_q_def)
  next
    case (TimerFired h')
    from run ev Pair have "dueTimer_q h' now (timers_q s) = None"
      by (simp add: running_q_def dueTimer_q_def)
    with Pair TimerFired assms show ?thesis
      by (simp add: step_q_def)
  next
    case (Settled out)
    have "running_q d h r (settled_q now out s)
        \<and> recorders_q (settled_q now out s) = recorders_q s"
      using run by (cases out) (simp_all add: settled_q_def pump_frame running_q_def
          split: option.splits)
    with Pair Settled show ?thesis by (simp add: step_q_def)
  qed (use Pair assms in \<open>simp_all add: voiced_q_def\<close>)
qed

lemma voiced_run:
  assumes "running_q d h r s" "\<forall>te \<in> set evs. voiced_q te \<and> fst te < d"
  shows "running_q d h r (run_q evs s) \<and> recorders_q (run_q evs s) = recorders_q s"
  using assms
proof (induction evs arbitrary: s)
  case Nil
  then show ?case by (simp add: run_q_def)
next
  case (Cons te evs)
  from voiced_step [OF Cons.prems(1), of te] Cons.prems(2)
  have a: "running_q d h r (step_q te s)" and b: "recorders_q (step_q te s) = recorders_q s"
    by auto
  from Cons.IH [OF a] Cons.prems(2) b show ?case by (simp add: run_q_def)
qed

lemma pump_submitted:
  "started_q (pump_q s) @ chained_q (pump_q s) = started_q s @ chained_q s"
proof (cases "inflight_q s")
  case None
  have "started_q (startNext_q bs s') @ chained_q (startNext_q bs s') = started_q s' @ bs" for bs s'
    by (induction bs arbitrary: s') simp_all
  with None show ?thesis by (simp add: pump_q_def)
next
  case (Some b)
  then show ?thesis by (simp add: pump_q_def)
qed

lemma chunks_of_append: "chunks_of (xs @ ys) = chunks_of xs @ chunks_of ys"
  by (induction xs) simp_all

lemma session_starts_data:
  assumes inv: "inv_q s" and idle: "\<not> isRecordingRef_q s" "isListeningRef_q s" "streamRef_q s"
    "recorderOk_q s" and p: "p \<ge> VOICE_PROBABILITY_THRESHOLD_q"
  shows "chunksRef_q (step_q (t0, Probability p) s) = []"
    and "recordingStartTimeRef_q (step_q (t0, Probability p) s) = Some t0"
    and "started_q (step_q (t0, Probability p) s) = started_q s"
    and "chained_q (step_q (t0, Probability p) s) = chained_q s"
proof -
  from inv have sess: "sessions_ok_q s" by (simp add: inv_q_def)
  note norec = idle_no_recording(1) [OF sess idle(1)]
  from norec idle p
  show "chunksRef_q (step_q (t0, Probability p) s) = []"
    and "recordingStartTimeRef_q (step_q (t0, Probability p) s) = Some t0"
    and "started_q (step_q (t0, Probability p) s) = started_q s"
    and "chained_q (step_q (t0, Probability p) s) = chained_q s"
    by (cases "silenceTimeoutRef_q s";
        simp add: step_q_def handleVoiceProbability_q_def handleVoiceDetected_q_def
          startRecording_q_def)+
qed

lemma voiced_step_data:
  assumes run: "running_q d h r s" and ev: "voiced_q te" "fst te < d"
  shows "chunksRef_q (step_q te s) = chunksRef_q s @ chunks_of [te]
       \<and> recordingStartTimeRef_q (step_q te s) = recordingStartTimeRef_q s
       \<and> started_q (step_q te s) @ chained_q (step_q te s) = started_q s @ chained_q s"
proof (cases te)
  case (Pair now ev')
  show ?thesis
  proof (cases ev')
    case (Probability p)
    with Pair assms show ?thesis
      by (simp add: step_q_def handleVoiceProbability_q_def handleVoiceDetected_q_def
          voiced_q_def running_q_def)
  next
    case (DataAvailable r' b)
    with Pair assms show ?thesis
      by (simp add: step_q_def ondataavailable_q_def)
  next
    case (TimerFired h')
    from run ev Pair have "dueTimer_q h' now (timers_q s) = None"
      by (simp add: running_q_def dueTimer_q_def)
    with Pair TimerFired show ?thesis
      by (simp add: step_q_def)
  next
    case (Settled out)
    have "chunksRef_q (settled_q now out s) = chunksRef_q s
        \<and> recordingStartTimeRef_q (settled_q now out s) = recordingStartTimeRef_q s
        \<and> started_q (settled_q now out s) @ chained_q (settled_q now out s)
            = started_q s @ chained_q s"
      by (cases "data_transcript out")
        (simp_all add: settled_q_def pump_frame pump_submitted split: option.splits)
    with Pair Settled show ?thesis by (simp add: step_q_def)
  qed (use Pair assms in \<open>simp_all add: voiced_q_def\<close>)
qed

lemma voiced_run_data:
  assumes "running_q d h r s" "\<forall>te \<in> set evs. voiced_q te \<and> fst te < d"
  shows "chunksRef_q (run_q evs s) = chunksRef_q s @ chunks_of evs
       \<and> recordingStartTimeRef_q (run_q evs s) = recordingStartTimeRef_q s
       \<and> started_q (run_q evs s) @ chained_q (run_q evs s) = started_q s @ chained_q s"
  using assms
proof (induction evs arbitrary: s)
  case Nil
  then show ?case by (simp add: run_q_def)
next
  case (Cons te evs)
  from voiced_step [OF Cons.prems(1), of te] Cons.prems(2)
  have a: "running_q d h r (step_q te s)" by simp
  from voiced_step_data [OF Cons.prems(1), of te] Cons.prems(2)
  have b: "chunksRef_q (step_q te s) = chunksRef_q s @ chunks_of [te]"
    and c: "recordingStartTimeRef_q (step_q te s) = recordingStartTimeRef_q s"
    and d: "started_q (step_q te s) @ chained_q (step_q te s) = started_q s @ chained_q s"
    by simp_all
  from Cons.IH [OF a] Cons.prems(2) b c d show ?case by (simp add: run_q_def)
qed

lemma forced_stop:
  assumes run: "running_q d h r s" and rec: "recorders_q s = recs @ [mr_started t0]"
    and r: "r = length recs" and late: "d \<le> t"
  shows "recorders_q (step_q (t, TimerFired h) s) = recs @ [mr_stop (mr_started t0)]"
    and "timers_q (step_q (t, TimerFired h) s) = []"
    and "recordingTimeoutRef_q (step_q (t, TimerFired h) s) = None"
    and "isListeningRef_q (step_q (t, TimerFired h) s)"
    and "streamRef_q (step_q (t, TimerFired h) s)"
    and "recorderOk_q (step_q (t, TimerFired h) s)"
    and "silenceTimeoutRef_q (step_q (t, TimerFired h) s) = None"
    and "mediaRecorderRef_q (step_q (t, TimerFired h) s) = Some r"
    and "chunksRef_q (step_q (t, TimerFired h) s) = chunksRef_q s"
    and "recordingStartTimeRef_q (step_q (t, TimerFired h) s) = recordingStartTimeRef_q s"
    and "started_q (step_q (t, TimerFired h) s) = started_q s"
    and "chained_q (step_q (t, TimerFired h) s) = chained_q s"
proof -
  have due: "dueTimer_q h t (timers_q s) = Some (MaxDurationTimer r)"
    using run late by (simp add: running_q_def dueTimer_q_def)
  have cur: "current_state (recorders_q s) (Some r) = Some Recording"
    using rec r by (simp add: current_state_def mr_started_def)
  have st: "mr_state (recorders_q s ! r) = Recording" "r < length (recorders_q s)"
    using rec r by (simp_all add: mr_started_def)
  from due cur st run rec r
  show "recorders_q (step_q (t, TimerFired h) s) = recs @ [mr_stop (mr_started t0)]"
    and "timers_q (step_q (t, TimerFired h) s) = []"
    and "recordingTimeoutRef_q (step_q (t, TimerFired h) s) = None"
    and "isListeningRef_q (step_q (t, TimerFired h) s)"
    and "streamRef_q (step_q (t, TimerFired h) s)"
    and "recorderOk_q (step_q (t, TimerFired h) s)"
    and "silenceTimeoutRef_q (step_q (t, TimerFired h) s) = None"
    and "mediaRecorderRef_q (step_q (t, TimerFired h) s) = Some r"
    and "chunksRef_q (step_q (t, TimerFired h) s) = chunksRef_q s"
    and "recordingStartTimeRef_q (step_q (t, TimerFired h) s) = recordingStartTimeRef_q s"
    and "started_q (step_q (t, TimerFired h) s) = started_q s"
    and "chained_q (step_q (t, TimerFired h) s) = chained_q s"
    by (simp_all add: step_q_def timerCallback_q_def stopRecording_q_def running_q_def
        clearTimer_def Let_def)
qed

lemma data_event_fields:
  "recorders_q (step_q (t, DataAvailable r b) s) = recorders_q s"
  "isListeningRef_q (step_q (t, DataAvailable r b) s) = isListeningRef_q s"
  "streamRef_q (step_q (t, DataAvailable r b) s) = streamRef_q s"
  "recorderOk_q (step_q (t, DataAvailable r b) s) = recorderOk_q s"
  "mediaRecorderRef_q (step_q (t, DataAvailable r b) s) = mediaRecorderRef_q s"
  "recordingStartTimeRef_q (step_q (t, DataAvailable r b) s) = recordingStartTimeRef_q s"
  "started_q (step_q (t, DataAvailable r b) s) = started_q s"
  "chained_q (step_q (t, DataAvailable r b) s) = chained_q s"
  "chunksRef_q (step_q (t, DataAvailable r b) s)
     = chunksRef_q s @ chunks_of [(t, DataAvailable r b)]"
  by (simp_all add: step_q_def ondataavailable_q_def)

lemma stop_event_fields:
  assumes "recorders_q s = recs @ [x]" "mr_stopping x"
  shows "\<not> isRecordingRef_q (step_q (t, RecorderStop (length recs)) s)"
    and "isListeningRef_q (step_q (t, RecorderStop (length recs)) s) = isListeningRef_q s"
    and "streamRef_q (step_q (t, RecorderStop (length recs)) s) = streamRef_q s"
    and "recorderOk_q (step_q (t, RecorderStop (length recs)) s) = recorderOk_q s"
    and "mediaRecorderRef_q (step_q (t, RecorderStop (length recs)) s) = mediaRecorderRef_q s"
    and "recorders_q (step_q (t, RecorderStop (length recs)) s) = recs @ [mr_stopped x]"
  using assms
  by (simp_all add: step_q_def onstop_q_def Let_def processAndSendAudio_q_def pump_frame)

lemma voiced_sample_starts:
  assumes "isListeningRef_q s" "streamRef_q s" "recorderOk_q s" "\<not> isRecordingRef_q s"
    and "current_state (recorders_q s) (mediaRecorderRef_q s) \<noteq> Some Recording"
    and "p \<ge> VOICE_PROBABILITY_THRESHOLD_q"
  shows "recorders_q (step_q (now, Probability p) s) = recorders_q s @ [mr_started now]
       \<and> isRecordingRef_q (step_q (now, Probability p) s)
       \<and> mediaRecorderRef_q (step_q (now, Probability p) s) = Some (length (recorders_q s))
       \<and> inflight_q (step_q (now, Probability p) s) = inflight_q s
       \<and> chained_q (step_q (now, Probability p) s) = chained_q s"
  using assms
  by (cases "silenceTimeoutRef_q s")
    (simp_all add: step_q_def handleVoiceProbability_q_def handleVoiceDetected_q_def
      startRecording_q_def)

lemma stop_event_clip:
  assumes rec: "recorders_q s = recs @ [x]" "mr_stopping x"
    and start: "recordingStartTimeRef_q s = Some t0" "t0 + MIN_RECORDING_DURATION_q \<le> t"
  shows "chunksRef_q (step_q (t, RecorderStop (length recs)) s) = []"
    and "started_q (step_q (t, RecorderStop (length recs)) s)
           @ chained_q (step_q (t, RecorderStop (length recs)) s)
         = started_q s @ chained_q s
           @ (if chunksRef_q s = [] then [] else [newBlob (chunksRef_q s)])"
  using assms
  by (simp_all add: step_q_def onstop_q_def Let_def processAndSendAudio_q_def pump_frame
      pump_submitted startTimeOr0_def)

lemma after_forced_stop:
  assumes run: "running_q d h r s" and rec: "recorders_q s = recs @ [mr_started t0]"
    and r: "r = length recs" and late: "d \<le> t" and p: "p \<ge> VOICE_PROBABILITY_THRESHOLD_q"
    and start: "recordingStartTimeRef_q s = Some t0" "t0 + MIN_RECORDING_DURATION_q \<le> t'"
  shows "\<not> isRecordingRef_q
           (run_q [(t, TimerFired h), (t, DataAvailable r b), (t', RecorderStop r)] s)"
    and "chunksRef_q
           (run_q [(t, TimerFired h), (t, DataAvailable r b), (t', RecorderStop r)] s) = []"
    and "started_q (run_q [(t, TimerFired h), (t, DataAvailable r b), (t', RecorderStop r)] s)
           @ chained_q
               (run_q [(t, TimerFired h), (t, DataAvailable r b), (t', RecorderStop r)] s)
         = started_q s @ chained_q s
           @ (if chunksRef_q s @ chunks_of [(t, DataAvailable r b)] = [] then []
              else [newBlob (chunksRef_q s @ chunks_of [(t, DataAvailable r b)])])"
    and "recorders_q
           (run_q [(t, TimerFired h), (t, DataAvailable r b), (t', RecorderStop r),
                   (t'', Probability p)] s)
           = recs @ [mr_stopped (mr_stop (mr_started t0)), mr_started t'']"
proof -
  define s3 where "s3 = step_q (t, TimerFired h) s"
  define s3' where "s3' = step_q (t, DataAvailable r b) s3"
  define s4 where "s4 = step_q (t', RecorderStop r) s3'"
  note f = forced_stop [OF run rec r late, folded s3_def]
  note d = data_event_fields [of t r b s3, folded s3'_def]
  have stopping: "mr_stopping (mr_stop (mr_started t0))"
    by (simp add: mr_stop_def)
  have rec3: "recorders_q s3' = recs @ [mr_stop (mr_started t0)]"
    using d(1) f(1) by simp
  have start3: "recordingStartTimeRef_q s3' = Some t0"
    using d(6) f(10) start(1) by simp
  note g = stop_event_fields [OF rec3 stopping, of t', folded r, folded s4_def]
  note c = stop_event_clip [OF rec3 stopping start3 start(2), folded r, folded s4_def]
  have run3: "run_q [(t, TimerFired h), (t, DataAvailable r b), (t', RecorderStop r)] s = s4"
    by (simp add: run_q_def s4_def s3'_def s3_def)
  from g(1) run3
  show "\<not> isRecordingRef_q
           (run_q [(t, TimerFired h), (t, DataAvailable r b), (t', RecorderStop r)] s)"
    by simp
  from c(1) run3
  show "chunksRef_q
           (run_q [(t, TimerFired h), (t, DataAvailable r b), (t', RecorderStop r)] s) = []"
    by simp
  have chunks3: "chunksRef_q s3' = chunksRef_q s @ chunks_of [(t, DataAvailable r b)]"
    using d(9) f(9) by simp
  have queue3: "started_q s3' = started_q s" "chained_q s3' = chained_q s"
    using d(7,8) f(11,12) by simp_all
  from c(2) run3 chunks3 queue3
  show "started_q (run_q [(t, TimerFired h), (t, DataAvailable r b), (t', RecorderStop r)] s)
           @ chained_q
               (run_q [(t, TimerFired h), (t, DataAvailable r b), (t', RecorderStop r)] s)
         = started_q s @ chained_q s
           @ (if chunksRef_q s @ chunks_of [(t, DataAvailable r b)] = [] then []
              else [newBlob (chunksRef_q s @ chunks_of [(t, DataAvailable r b)])])"
    by simp
  have cur: "current_state (recorders_q s4) (mediaRecorderRef_q s4) \<noteq> Some Recording"
    using g(5,6) d(5) f(8) r by (simp add: current_state_def mr_stopped_def mr_stop_def)
  from voiced_sample_starts [OF _ _ _ g(1) cur p, of t''] g d f
  have "recorders_q (step_q (t'', Probability p) s4)
      = recs @ [mr_stopped (mr_stop (mr_started t0)), mr_started t'']"
    by simp
  then show "recorders_q
           (run_q [(t, TimerFired h), (t, DataAvailable r b), (t', RecorderStop r),
                   (t'', Probability p)] s)
           = recs @ [mr_stopped (mr_stop (mr_started t0)), mr_started t'']"
    by (simp add: run_q_def s4_def s3'_def s3_def)
qed

lemma run_q_append: "run_q (evs @ evs') s = run_q evs' (run_q evs s)"
  by (simp add: run_q_def)

lemma run_q_Cons: "run_q (te # evs) s = run_q evs (step_q te s)"
  by (simp add: run_q_def)

text \<open>
  C6, amended to the component that configures a maximum.  The component is idle and
  listening, in a state that satisfies the invariant (every state reached from
  initialisation while the component is mounted does, lemma \<open>inv_run\<close>), and a voiced
  sample at \<open>t0\<close> starts a session.  While the voice stays over the threshold,
  whatever data, voiced samples, timer checks and transcription results arrive
  before \<open>t0 + MAX_RECORDING_DURATION\<close>, the session is the one recorder that was
  added, still recording, no silence timer is armed, the only pending timer is the
  maximum-duration timer of that recorder, due at \<open>t0 + MAX_RECORDING_DURATION\<close>, and
  the chunks gathered are those the data events brought.  When that timer runs, at
  any time from then on, \<open>stop()\<close> is called on the recorder and no timer is left.
  The final data and the \<open>stop\<close> event then finalise the session: the chunks are
  discarded, the session is over, and the chunks gathered, when there are any, have
  been submitted to transcription as one clip, behind the clips submitted before.
  The next voiced sample starts a new session.
\<close>

theorem max_duration_forces_stop:
  assumes inv: "inv_q s0"
    and idle: "\<not> isRecordingRef_q s0" "isListeningRef_q s0" "streamRef_q s0" "recorderOk_q s0"
    and p: "p \<ge> VOICE_PROBABILITY_THRESHOLD_q"
    and run: "\<forall>te \<in> set evs. voiced_q te \<and> fst te < t0 + MAX_RECORDING_DURATION_q"
    and late: "t0 + MAX_RECORDING_DURATION_q \<le> t" "t \<le> t'"
    and again: "p' \<ge> VOICE_PROBABILITY_THRESHOLD_q"
  shows "recorders_q (run_q ((t0, Probability p) # evs) s0) = recorders_q s0 @ [mr_started t0]
       \<and> silenceTimeoutRef_q (run_q ((t0, Probability p) # evs) s0) = None
       \<and> timers_q (run_q ((t0, Probability p) # evs) s0)
           = [(nextTimer_q s0, t0 + MAX_RECORDING_DURATION_q,
               MaxDurationTimer (length (recorders_q s0)))]
       \<and> chunksRef_q (run_q ((t0, Probability p) # evs) s0) = chunks_of evs
       \<and> recorders_q (run_q (((t0, Probability p) # evs) @ [(t, TimerFired (nextTimer_q s0))]) s0)
           = recorders_q s0 @ [mr_stop (mr_started t0)]
       \<and> timers_q (run_q (((t0, Probability p) # evs) @ [(t, TimerFired (nextTimer_q s0))]) s0)
           = []
       \<and> \<not> isRecordingRef_q
            (run_q (((t0, Probability p) # evs) @
               [(t, TimerFired (nextTimer_q s0)),
                (t, DataAvailable (length (recorders_q s0)) b),
                (t', RecorderStop (length (recorders_q s0)))]) s0)
       \<and> chunksRef_q
            (run_q (((t0, Probability p) # evs) @
               [(t, TimerFired (nextTimer_q s0)),
                (t, DataAvailable (length (recorders_q s0)) b),
                (t', RecorderStop (length (recorders_q s0)))]) s0) = []
       \<and> started_q
            (run_q (((t0, Probability p) # evs) @
               [(t, TimerFired (nextTimer_q s0)),
                (t, DataAvailable (length (recorders_q s0)) b),
                (t', RecorderStop (length (recorders_q s0)))]) s0)
         @ chained_q
            (run_q (((t0, Probability p) # evs) @
               [(t, TimerFired (nextTimer_q s0)),
                (t, DataAvailable (length (recorders_q s0)) b),
                (t', RecorderStop (length (recorders_q s0)))]) s0)
         = started_q s0 @ chained_q s0
           @ (if chunks_of (evs @ [(t, DataAvailable (length (recorders_q s0)) b)]) = [] then []
              else [newBlob (chunks_of (evs @ [(t, DataAvailable (length (recorders_q s0)) b)]))])
       \<and> recorders_q
            (run_q (((t0, Probability p) # evs) @
               [(t, TimerFired (nextTimer_q s0)),
                (t, DataAvailable (length (recorders_q s0)) b),
                (t', RecorderStop (length (recorders_q s0))),
                (t'', Probability p')]) s0)
           = recorders_q s0 @ [mr_stopped (mr_stop (mr_started t0)), mr_started t'']"
proof -
  let ?d = "t0 + MAX_RECORDING_DURATION_q"
  let ?h = "nextTimer_q s0"
  let ?r = "length (recorders_q s0)"
  let ?s1 = "step_q (t0, Probability p) s0"
  let ?s2 = "run_q ((t0, Probability p) # evs) s0"
  from session_starts [OF inv idle p, of t0]
  have r1: "running_q ?d ?h ?r ?s1"
    and c1: "recorders_q ?s1 = recorders_q s0 @ [mr_started t0]"
    by auto
  note d1 = session_starts_data [OF inv idle p, of t0]
  from voiced_run [OF r1 run] c1
  have r2: "running_q ?d ?h ?r ?s2"
    and c2: "recorders_q ?s2 = recorders_q s0 @ [mr_started t0]"
    by (simp_all add: run_q_Cons)
  from voiced_run_data [OF r1 run] d1
  have d2: "chunksRef_q ?s2 = chunks_of evs" "recordingStartTimeRef_q ?s2 = Some t0"
    "started_q ?s2 @ chained_q ?s2 = started_q s0 @ chained_q s0"
    by (simp_all add: run_q_Cons)
  have long: "t0 + MIN_RECORDING_DURATION_q \<le> t'"
    using late by (simp add: MIN_RECORDING_DURATION_q_def MAX_RECORDING_DURATION_q_def)
  note f = forced_stop [OF r2 c2 refl late(1)]
  note a = after_forced_stop [OF r2 c2 refl late(1) again d2(2) long]
  have clip: "started_q
            (run_q [(t, TimerFired ?h), (t, DataAvailable ?r b), (t', RecorderStop ?r)] ?s2)
         @ chained_q
            (run_q [(t, TimerFired ?h), (t, DataAvailable ?r b), (t', RecorderStop ?r)] ?s2)
         = started_q s0 @ chained_q s0
           @ (if chunks_of (evs @ [(t, DataAvailable ?r b)]) = [] then []
              else [newBlob (chunks_of (evs @ [(t, DataAvailable ?r b)]))])"
    using a(3) d2(1,3) by (simp add: chunks_of_append del: chunks_of.simps)
  have single: "run_q [te] s = step_q te s" for te s
    by (simp add: run_q_def)
  from r2 c2 d2(1) f(1,2) a(1,2,4) clip show ?thesis
    unfolding run_q_append by (simp add: running_q_def single del: chunks_of.simps)
qed

text \<open>
  The theorem at a session started at 1000 ms in which the voice stays over the
  threshold: the timer runs at 4000 ms, the recorder is stopped, and the clip of the
  session is in flight at the transcription service when the next session starts.
\<close>

theorem max_duration_forces_stop_witness:
  "recorders_q (run_q ((1000, Probability (1 / 2)) # voiced_stretch) listening_q)
     = [mr_started 1000]
   \<and> timers_q (run_q ((1000, Probability (1 / 2)) # voiced_stretch) listening_q)
       = [(1, 4000, MaxDurationTimer 0)]
   \<and> recorders_q (run_q (((1000, Probability (1 / 2)) # voiced_stretch) @ [(4000, TimerFired 1)])
        listening_q) = [mr_stop (mr_started 1000)]
   \<and> started_q (run_q (((1000, Probability (1 / 2)) # voiced_stretch) @
        [(4000, TimerFired 1), (4000, DataAvailable 0 [3]), (4010, RecorderStop 0)])
        listening_q)
      @ chained_q (run_q (((1000, Probability (1 / 2)) # voiced_stretch) @
        [(4000, TimerFired 1), (4000, DataAvailable 0 [3]), (4010, RecorderStop 0)])
        listening_q) = [[1, 2, 3]]
   \<and> recorders_q (run_q (((1000, Probability (1 / 2)) # voiced_stretch) @
        [(4000, TimerFired 1), (4000, DataAvailable 0 [3]), (4010, RecorderStop 0),
         (4020, Probability (1 / 2))])
        listening_q) = [mr_stopped (mr_stop (mr_started 1000)), mr_started 4020]"
proof -
  have l: "listening_q = initialized_q\<lparr>subscribed_q := True, isListeningRef_q := True\<rparr>"
    by (simp add: listening_q_def q_eval)
  have inv: "inv_q listening_q"
    unfolding listening_q_def by (rule inv_run [OF inv_initialized]) simp
  have idle: "\<not> isRecordingRef_q listening_q" "isListeningRef_q listening_q"
    "streamRef_q listening_q" "recorderOk_q listening_q"
    and st: "recorders_q listening_q = []" "nextTimer_q listening_q = 1"
      "started_q listening_q = []" "chained_q listening_q = []"
    by (simp_all add: l initialized_q_def)
  have p: "(1 / 2 :: rat) \<ge> VOICE_PROBABILITY_THRESHOLD_q"
    by (simp add: VOICE_PROBABILITY_THRESHOLD_q_def)
  have run: "\<forall>te \<in> set voiced_stretch. voiced_q te \<and> fst te < 1000 + MAX_RECORDING_DURATION_q"
    by (simp add: voiced_stretch_def voiced_q_def VOICE_PROBABILITY_THRESHOLD_q_def
        MAX_RECORDING_DURATION_q_def)
  have late: "1000 + MAX_RECORDING_DURATION_q \<le> 4000" "(4000 :: int) \<le> 4010"
    by (simp_all add: MAX_RECORDING_DURATION_q_def)
  have chunks: "chunks_of (voiced_stretch @ [(4000, DataAvailable 0 [3])]) = [[1, 2], [3]]"
    by (simp add: voiced_stretch_def)
  from max_duration_forces_stop [OF inv idle p run late p, where b = "[3]" and t'' = 4020]
    st chunks
  show ?thesis
    by (simp add: MAX_RECORDING_DURATION_q_def newBlob_def del: chunks_of.simps)
qed

section \<open>VoiceDetector: no maximum recording duration\<close>

lemma voiced_step_vd:
  assumes rec: "isRecordingRef_vd s" "timers_vd s = []" and ev: "voiced_vd te"
  shows "isRecordingRef_vd (step_vd te s) \<and> timers_vd (step_vd te s) = []
       \<and> recorders_vd (step_vd te s) = recorders_vd s
       \<and> audioClips_vd (step_vd te s) = audioClips_vd s"
proof (cases te)
  case (Pair now ev')
  show ?thesis
  proof (cases ev')
    case (Probability p)
    with Pair assms show ?thesis
      by (cases "silenceTimeoutRef_vd s")
        (simp_all add: step_vd_def handleVoiceProbability_vd_def handleVoiceDetected_vd_def
          voiced_vd_def clearTimer_def)
  next
    case (DataAvailable r b)
    with Pair assms show ?thesis
      by (simp add: step_vd_def ondataavailable_vd_def)
  next
    case (TimerFired h)
    with Pair assms show ?thesis
      by (simp add: step_vd_def due_def)
  qed (use Pair assms in \<open>simp_all add: voiced_vd_def\<close>)
qed

text \<open>
  In VoiceDetector a recording lasts as long as the voice stays over the threshold,
  however long that is: no timer is armed, the recorder is never stopped and no
  clip is made.
\<close>

lemma voiced_run_vd:
  assumes "isRecordingRef_vd s" "timers_vd s = []" "\<forall>te \<in> set evs. voiced_vd te"
  shows "isRecordingRef_vd (run_vd evs s) \<and> timers_vd (run_vd evs s) = []
       \<and> recorders_vd (run_vd evs s) = recorders_vd s
       \<and> audioClips_vd (run_vd evs s) = audioClips_vd s"
  using assms
proof (induction evs arbitrary: s)
  case Nil
  then show ?case by (simp add: run_vd_def)
next
  case (Cons te evs)
  from voiced_step_vd [OF Cons.prems(1,2), of te] Cons.prems(3)
  have a: "isRecordingRef_vd (step_vd te s)" "timers_vd (step_vd te s) = []"
    and b: "recorders_vd (step_vd te s) = recorders_vd s"
      "audioClips_vd (step_vd te s) = audioClips_vd s"
    by simp_all
  from Cons.IH [OF a] Cons.prems(3) b show ?case by (simp add: run_vd_def)
qed

text \<open>
  C6, as stated, fails in VoiceDetector, which configures no maximum.  A recording
  starts at 1000 ms and the voice stays over the threshold: one minute later the
  same recorder is still recording, no timer is pending and no clip was made.
\<close>

theorem recording_unbounded_vd_counterexample:
  "recorders_vd recording_vd = [mr_started 1000]
   \<and> recorders_vd (run_vd long_voice_vd recording_vd) = [mr_started 1000]
   \<and> map mr_state (recorders_vd (run_vd long_voice_vd recording_vd)) = [Recording]
   \<and> isRecordingRef_vd (run_vd long_voice_vd recording_vd)
   \<and> timers_vd (run_vd long_voice_vd recording_vd) = []
   \<and> audioClips_vd (run_vd long_voice_vd recording_vd) = []"
  by (simp add: recording_vd_eval long_voice_vd_def vd_eval)

section \<open>The processing-queue component: a request in flight and the next utterance\<close>

text \<open>
  C8, amended to the component that queues its clips.  In any state in which the
  start conditions hold (listening, stream present, \<open>isRecordingRef\<close> clear, the
  current recorder not recording, and a browser that can create the recorder), a
  voiced sample starts a new recording session, whatever clip is in flight at the
  transcription service and whatever is chained behind it; the sample leaves the
  queue as it is.
\<close>

theorem transcription_does_not_delay_start_q:
  assumes "isListeningRef_q s" "streamRef_q s" "recorderOk_q s" "\<not> isRecordingRef_q s"
    and "current_state (recorders_q s) (mediaRecorderRef_q s) \<noteq> Some Recording"
    and "p \<ge> VOICE_PROBABILITY_THRESHOLD_q"
  shows "recorders_q (step_q (now, Probability p) s) = recorders_q s @ [mr_started now]
       \<and> isRecordingRef_q (step_q (now, Probability p) s)
       \<and> mediaRecorderRef_q (step_q (now, Probability p) s) = Some (length (recorders_q s))
       \<and> inflight_q (step_q (now, Probability p) s) = inflight_q s
       \<and> chained_q (step_q (now, Probability p) s) = chained_q s"
  by (rule voiced_sample_starts [OF assms])

theorem transcription_does_not_delay_start_q_witness:
  "inflight_q transcribing_q = Some [1, 2, 3]
   \<and> recorders_q transcribing_q = [mr_stopped (mr_stop (mr_started 1000))]
   \<and> recorders_q (step_q (2800, Probability (1 / 2)) transcribing_q)
       = [mr_stopped (mr_stop (mr_started 1000)), mr_started 2800]
   \<and> isRecordingRef_q (step_q (2800, Probability (1 / 2)) transcribing_q)
   \<and> inflight_q (step_q (2800, Probability (1 / 2)) transcribing_q) = Some [1, 2, 3]"
proof -
  have t: "transcribing_q =
      initialized_q\<lparr>subscribed_q := True, isListeningRef_q := True,
        recorders_q := [mr_stopped (mr_stop (mr_started 1000))], mediaRecorderRef_q := Some 0,
        nextTimer_q := 3, isProcessing_q := True, inflight_q := Some [1, 2, 3],
        started_q := [[1, 2, 3]]\<rparr>"
    by (simp add: transcribing_q_def listening_q_def q_eval)
  have a: "isListeningRef_q transcribing_q" "streamRef_q transcribing_q"
    "recorderOk_q transcribing_q" "\<not> isRecordingRef_q transcribing_q"
    "current_state (recorders_q transcribing_q) (mediaRecorderRef_q transcribing_q)
       \<noteq> Some Recording"
    and b: "inflight_q transcribing_q = Some [1, 2, 3]"
      "recorders_q transcribing_q = [mr_stopped (mr_stop (mr_started 1000))]"
    by (simp_all add: t initialized_q_def current_state_def mr_stopped_def mr_stop_def)
  have p: "(1 / 2 :: rat) \<ge> VOICE_PROBABILITY_THRESHOLD_q"
    by (simp add: VOICE_PROBABILITY_THRESHOLD_q_def)
  from transcription_does_not_delay_start_q [OF a p, of 2800] b show ?thesis
    by simp
qed

section \<open>Finalisation: short sessions and sessions without audio\<close>

text \<open>
  C3.  The \<open>stop\<close> event of a recorder arrives less than the minimum recording
  duration after the session started.  In VoiceDetector the clip list is as it was;
  in the component with the processing queue nothing is handed to transcription
  (the clips started, chained and in flight are as they were); in both the chunks
  are discarded and the session is over.
\<close>

theorem short_session_discarded:
  assumes vd: "r < length (recorders_vd s)" "mr_stopping (recorders_vd s ! r)"
      "now - mr_startTime (recorders_vd s ! r) < MIN_RECORDING_DURATION_vd"
    and q: "r' < length (recorders_q s')" "mr_stopping (recorders_q s' ! r')"
      "recordingStartTimeRef_q s' = Some t0" "now' - t0 < MIN_RECORDING_DURATION_q"
  shows "audioClips_vd (step_vd (now, RecorderStop r) s) = audioClips_vd s
       \<and> audioChunksRef_vd (step_vd (now, RecorderStop r) s) = []
       \<and> \<not> isRecordingRef_vd (step_vd (now, RecorderStop r) s)
       \<and> started_q (step_q (now', RecorderStop r') s') = started_q s'
       \<and> chained_q (step_q (now', RecorderStop r') s') = chained_q s'
       \<and> inflight_q (step_q (now', RecorderStop r') s') = inflight_q s'
       \<and> chunksRef_q (step_q (now', RecorderStop r') s') = []
       \<and> \<not> isRecordingRef_q (step_q (now', RecorderStop r') s')"
proof -
  have a: "audioClips_vd (step_vd (now, RecorderStop r) s) = audioClips_vd s
       \<and> audioChunksRef_vd (step_vd (now, RecorderStop r) s) = []
       \<and> \<not> isRecordingRef_vd (step_vd (now, RecorderStop r) s)"
    using vd by (simp add: step_vd_def onstop_vd_def MIN_RECORDING_DURATION_vd_def Let_def)
  have b: "started_q (step_q (now', RecorderStop r') s') = started_q s'
       \<and> chained_q (step_q (now', RecorderStop r') s') = chained_q s'
       \<and> inflight_q (step_q (now', RecorderStop r') s') = inflight_q s'
       \<and> chunksRef_q (step_q (now', RecorderStop r') s') = []
       \<and> \<not> isRecordingRef_q (step_q (now', RecorderStop r') s')"
    using q by (simp add: step_q_def onstop_q_def startTimeOr0_def Let_def)
  from a b show ?thesis by simp
qed

theorem short_session_discarded_witness:
  "audioChunksRef_vd short_session_vd = [[1, 2, 3]]
   \<and> audioClips_vd (step_vd (1200, RecorderStop 0) short_session_vd) = []
   \<and> audioChunksRef_vd (step_vd (1200, RecorderStop 0) short_session_vd) = []
   \<and> chunksRef_q short_session_q = [[1, 2, 3]]
   \<and> started_q (step_q (1200, RecorderStop 0) short_session_q) = []
   \<and> inflight_q (step_q (1200, RecorderStop 0) short_session_q) = None
   \<and> chunksRef_q (step_q (1200, RecorderStop 0) short_session_q) = []"
proof -
  have v: "short_session_vd =
      recording_vd\<lparr>audioChunksRef_vd := [[1, 2, 3]], subscribed_vd := False,
        recorders_vd := [mr_stop (mr_started 1000)], isListeningRef_vd := False\<rparr>"
    by (simp add: short_session_vd_def recording_vd_eval vd_eval)
  have q: "short_session_q =
      initialized_q\<lparr>isListeningRef_q := False, isRecordingRef_q := True,
        mediaRecorderRef_q := Some 0, chunksRef_q := [[1, 2, 3]],
        recordingStartTimeRef_q := Some 1000, recorders_q := [mr_stop (mr_started 1000)],
        nextTimer_q := 2\<rparr>"
    by (simp add: short_session_q_def listening_q_def q_eval)
  have vd: "0 < length (recorders_vd short_session_vd)"
    "mr_stopping (recorders_vd short_session_vd ! 0)"
    "1200 - mr_startTime (recorders_vd short_session_vd ! 0) < MIN_RECORDING_DURATION_vd"
    and clips: "audioClips_vd short_session_vd = []"
      "audioChunksRef_vd short_session_vd = [[1, 2, 3]]"
    by (simp_all add: v recording_vd_eval initialized_vd_def mr_stop_def mr_started_def
        MIN_RECORDING_DURATION_vd_def)
  have qq: "0 < length (recorders_q short_session_q)"
    "mr_stopping (recorders_q short_session_q ! 0)"
    "recordingStartTimeRef_q short_session_q = Some 1000"
    "1200 - 1000 < MIN_RECORDING_DURATION_q"
    and queue: "started_q short_session_q = []" "inflight_q short_session_q = None"
      "chunksRef_q short_session_q = [[1, 2, 3]]"
    by (simp_all add: q initialized_q_def mr_stop_def mr_started_def
        MIN_RECORDING_DURATION_q_def)
  from short_session_discarded [OF vd qq] clips queue show ?thesis
    by simp
qed

lemma step_vd_no_audio:
  assumes "audioChunksRef_vd s = []" "no_audio te"
  shows "audioChunksRef_vd (step_vd te s) = [] \<and> audioClips_vd (step_vd te s) = audioClips_vd s"
  using assms
  by (cases te; cases "snd te")
    (auto simp: vd_handlers no_audio_def Let_def split: option.splits if_splits)

lemma run_vd_no_audio:
  assumes "audioChunksRef_vd s = []" "\<forall>te \<in> set evs. no_audio te"
  shows "audioChunksRef_vd (run_vd evs s) = [] \<and> audioClips_vd (run_vd evs s) = audioClips_vd s"
  using assms
proof (induction evs arbitrary: s)
  case Nil
  then show ?case by (simp add: run_vd_def)
next
  case (Cons te evs)
  from step_vd_no_audio [of s te] Cons.prems
  have a: "audioChunksRef_vd (step_vd te s) = []"
    and b: "audioClips_vd (step_vd te s) = audioClips_vd s"
    by auto
  from Cons.IH [OF a] Cons.prems b show ?case by (simp add: run_vd_def)
qed

lemma startNext_submitted:
  "started_q (startNext_q bs s) @ chained_q (startNext_q bs s) = started_q s @ bs"
  by (induction bs arbitrary: s) simp_all

lemma step_q_no_audio:
  assumes "chunksRef_q s = []" "no_audio te"
  shows "chunksRef_q (step_q te s) = []
       \<and> started_q (step_q te s) @ chained_q (step_q te s) = started_q s @ chained_q s"
proof (cases te)
  case (Pair now ev)
  show ?thesis
  proof (cases ev)
    case (Settled out)
    with Pair assms show ?thesis
      by (cases out)
        (auto simp: step_q_def settled_q_def pump_q_def startNext_submitted startNext_frame
          split: option.splits)
  next
    case (TimerFired h)
    with Pair assms show ?thesis
      by (auto simp: step_q_def timerCallback_q_def stopRecording_q_def Let_def
          split: option.splits timer_kind.splits)
  next
    case (RecorderStop r)
    with Pair assms show ?thesis
      by (auto simp: step_q_def onstop_q_def Let_def)
  qed (use Pair assms in \<open>auto simp: q_handlers no_audio_def Let_def split: option.splits\<close>)
qed

lemma run_q_no_audio:
  assumes "chunksRef_q s = []" "\<forall>te \<in> set evs. no_audio te"
  shows "chunksRef_q (run_q evs s) = []
       \<and> started_q (run_q evs s) @ chained_q (run_q evs s) = started_q s @ chained_q s"
  using assms
proof (induction evs arbitrary: s)
  case Nil
  then show ?case by (simp add: run_q_def)
next
  case (Cons te evs)
  from step_q_no_audio [of s te] Cons.prems
  have a: "chunksRef_q (step_q te s) = []"
    and b: "started_q (step_q te s) @ chained_q (step_q te s) = started_q s @ chained_q s"
    by auto
  from Cons.IH [OF a] Cons.prems b show ?case by (simp add: run_q_def)
qed

text \<open>
  C10.  From a state with no chunk (as \<open>startRecording\<close> leaves it), whatever happens
  as long as no \<open>dataavailable\<close> event brings data, and however long the sessions
  last, every finalisation on the way produces nothing: in VoiceDetector the clip
  list stays as it was, and in the component with the processing queue no clip is
  submitted (the clips started followed by the clips chained, which are the clips
  submitted so far, stay as they were).
\<close>

theorem no_audio_no_clip:
  assumes "audioChunksRef_vd s = []" "\<forall>te \<in> set evs. no_audio te"
    and "chunksRef_q s' = []" "\<forall>te \<in> set evs'. no_audio te"
  shows "audioClips_vd (run_vd evs s) = audioClips_vd s
       \<and> audioChunksRef_vd (run_vd evs s) = []
       \<and> started_q (run_q evs' s') @ chained_q (run_q evs' s') = started_q s' @ chained_q s'
       \<and> chunksRef_q (run_q evs' s') = []"
  using run_vd_no_audio [OF assms(1,2)] run_q_no_audio [OF assms(3,4)] by simp

text \<open>
  The theorem at sessions of 2500 ms and of 1760 ms, several times the minimum,
  whose recorders deliver only empty data: the \<open>stop\<close> event ends the session
  without a clip.
\<close>

theorem no_audio_no_clip_witness:
  "audioClips_vd (run_vd empty_session recording_vd) = []
   \<and> \<not> isRecordingRef_vd (run_vd empty_session recording_vd)
   \<and> map mr_state (recorders_vd (run_vd empty_session recording_vd)) = [Inactive]
   \<and> started_q (run_q empty_session_q listening_q) = []
   \<and> chained_q (run_q empty_session_q listening_q) = []
   \<and> \<not> isRecordingRef_q (run_q empty_session_q listening_q)"
proof -
  have l: "listening_q = initialized_q\<lparr>subscribed_q := True, isListeningRef_q := True\<rparr>"
    by (simp add: listening_q_def q_eval)
  have a: "audioChunksRef_vd recording_vd = []" "audioClips_vd recording_vd = []"
    by (simp_all add: recording_vd_eval initialized_vd_def)
  have b: "\<forall>te \<in> set empty_session. no_audio te"
    by (simp add: empty_session_def no_audio_def)
  have c: "chunksRef_q listening_q = []" "started_q listening_q = []" "chained_q listening_q = []"
    by (simp_all add: l initialized_q_def)
  have d: "\<forall>te \<in> set empty_session_q. no_audio te"
    by (simp add: empty_session_q_def no_audio_def)
  have e: "\<not> isRecordingRef_vd (run_vd empty_session recording_vd)
      \<and> map mr_state (recorders_vd (run_vd empty_session recording_vd)) = [Inactive]"
    by (simp add: recording_vd_eval empty_session_def vd_eval)
  have f: "\<not> isRecordingRef_q (run_q empty_session_q listening_q)"
    by (simp add: l empty_session_q_def q_eval)
  from no_audio_no_clip [OF a(1) b c(1) d] a c e f show ?thesis
    by simp
qed

section \<open>VoiceDetector: unmounting with the silence timer armed\<close>

text \<open>
  C7 at a concrete run of VoiceDetector.  A recording is running and the silence
  timer (handle 1, due at 3500 ms) is armed when the component unmounts at 2200 ms.
  The cleanup stops the tracks, which ends the recording, and releases Cobra, but
  the timer stays pending and \<open>silenceTimeoutRef\<close> keeps it.  At 3500 ms the callback
  runs: it calls \<open>stopRecording\<close>, which finds the recorder inactive, and resets
  \<open>silenceTimeoutRef\<close>.  The \<open>stop\<close> event of the recorder, too, is handled after the
  release: it ends the session and discards the chunks; the clip it makes is
  dropped with the state of the unmounted component.
\<close>

theorem unmount_leaves_timer_vd:
  "timers_vd (run_vd unmount_trace_vd initialized_vd) = [(1, 3500)]
   \<and> silenceTimeoutRef_vd (run_vd unmount_trace_vd initialized_vd) = Some 1
   \<and> tracksStopped_vd (run_vd unmount_trace_vd initialized_vd)
   \<and> cobraReleased_vd (run_vd unmount_trace_vd initialized_vd)
   \<and> unmounted_vd (run_vd unmount_trace_vd initialized_vd)
   \<and> recorders_vd (run_vd unmount_trace_vd initialized_vd) = [mr_stop (mr_started 1000)]
   \<and> isRecordingRef_vd (run_vd unmount_trace_vd initialized_vd)
   \<and> silenceTimeoutRef_vd (run_vd (unmount_trace_vd @ [(3500, TimerFired 1)]) initialized_vd)
       = None
   \<and> timers_vd (run_vd (unmount_trace_vd @ [(3500, TimerFired 1)]) initialized_vd) = []
   \<and> recorders_vd (run_vd (unmount_trace_vd @ [(3500, TimerFired 1)]) initialized_vd)
       = [mr_stop (mr_started 1000)]
   \<and> audioClips_vd
        (run_vd (unmount_trace_vd @ [(3500, TimerFired 1), (3500, RecorderStop 0)])
           initialized_vd) = []
   \<and> audioChunksRef_vd
        (run_vd (unmount_trace_vd @ [(3500, TimerFired 1), (3500, RecorderStop 0)])
           initialized_vd) = []
   \<and> \<not> isRecordingRef_vd
        (run_vd (unmount_trace_vd @ [(3500, TimerFired 1), (3500, RecorderStop 0)])
           initialized_vd)"
  by (simp add: unmount_trace_vd_def vd_eval)

section \<open>Index: a second recorder during a pause\<close>

lemmas ix_eval = run_ix_def step_ix_def afterRender_ix_def commit_ix_def memoise_ix_def
  tracksEnded_def onVoiceStart_ix_def onVoiceStop_ix_def handleSpeech_ix_def
  handlePause_ix_def startRecording_ix_def stopRecording_ix_def pauseTimeout_ix_def
  startListening_ix_def stopListening_ix_def ondataavailable_ix_def onstop_ix_def
  saveRecording_ix_def mounted_ix_def current_state_def mr_started_def mr_stop_def
  mr_stopped_def clearTimer_def due_def newBlob_def PAUSE_THRESHOLD_def
  MIN_RECORDING_LENGTH_def Let_def

text \<open>
  C1 at a concrete run of Index.  Voice starts, pauses and starts again before the
  pause timer runs: \<open>onVoiceStart\<close> tests the \<open>isRecording\<close> of the render in which
  the VAD was created, which is \<open>false\<close>, and starts a second recorder while the
  first is still recording (the React state \<open>isRecording\<close> is \<open>true\<close> by then).
\<close>

theorem second_recorder_ix:
  "recorders_ix (run_ix pause_resume_ix mounted_ix) = [mr_started 2000, mr_started 3500]
   \<and> length (filter active (recorders_ix (run_ix pause_resume_ix mounted_ix))) = 2
   \<and> isRecording_ix (run_ix (take 3 pause_resume_ix) mounted_ix)
   \<and> \<not> seenIsRecording_ix (run_ix (take 3 pause_resume_ix) mounted_ix)"
  by (simp add: pause_resume_ix_def ix_eval active_def)

text \<open>
  In the second listening session the callbacks of the VAD hold the \<open>startRecording\<close>
  of a render in which \<open>isListening\<close> was true, so the \<open>onstop\<close> handler of a recorder
  that stops while no long pause is flagged starts a new recorder: here the one of
  10002 ms, next to the one that the resumed voice started at 10001 ms.
\<close>

lemma restart_in_second_session_ix:
  "\<not> seenIsListening_ix (run_ix (take 6 two_sessions_ix) mounted_ix)
   \<and> \<not> isListening_ix (run_ix (take 6 two_sessions_ix) mounted_ix)
   \<and> audioPackets_ix (run_ix (take 6 two_sessions_ix) mounted_ix) = [[1]]
   \<and> seenIsListening_ix (run_ix (take 7 two_sessions_ix) mounted_ix)
   \<and> map mr_startTime (recorders_ix (run_ix two_sessions_ix mounted_ix))
       = [2000, 7000, 10001, 10002]
   \<and> map mr_state (recorders_ix (run_ix two_sessions_ix mounted_ix))
       = [Inactive, Inactive, Recording, Recording]
   \<and> mediaRecorderRef_ix (run_ix two_sessions_ix mounted_ix) = Some 3"
  by (simp add: two_sessions_ix_def ix_eval)

section \<open>The awaiting component: a request in flight and the next utterance\<close>

lemmas rt_eval = run_rt_def step_rt_def handleVoiceProbability_rt_def handleVoiceDetected_rt_def
  handleSilenceDetected_rt_def startRecording_rt_def stopRecording_rt_def silenceTimeout_rt_def
  ondataavailable_rt_def onstop_rt_def onstop_finally_rt_def settled_rt_def
  startListening_rt_def stopListening_rt_def cleanup_rt_def commit_rt_def tracksEnded_def
  initialized_rt_def
  current_state_def mr_started_def mr_stop_def mr_stopped_def clearTimer_def due_def
  newBlob_def startTimeOr0_def VOICE_PROBABILITY_THRESHOLD_rt_def
  SILENCE_DURATION_THRESHOLD_rt_def MIN_RECORDING_DURATION_rt_def Let_def

text \<open>
  C8, as stated, fails in the RealtimeSpeechToText of page.tsx.  Its \<open>onstop\<close> awaits
  the transcription before it clears \<open>isRecordingRef\<close>: while the request is in
  flight the component is listening, the stream is present and no recorder is
  active, and still a voiced sample starts no session.  Once the request has
  settled, the same sample does.
\<close>

theorem transcription_delays_start_rt_counterexample:
  "awaiting_rt transcribing_rt = [[1, 2, 3]]
   \<and> isListeningRef_rt transcribing_rt \<and> streamRef_rt transcribing_rt
   \<and> filter active (recorders_rt transcribing_rt) = []
   \<and> recorders_rt (step_rt (3600, Probability (9 / 10)) transcribing_rt)
       = recorders_rt transcribing_rt
   \<and> filter active (recorders_rt (step_rt (3600, Probability (9 / 10)) transcribing_rt)) = []
   \<and> recorders_rt
        (run_rt [(3700, Settled (Success ''hello'')), (3800, Probability (9 / 10))]
           transcribing_rt)
       = [mr_stopped (mr_stop (mr_started 1000)), mr_started 3800]"
  by (simp add: transcribing_rt_def rt_eval active_def)

section \<open>The awaiting component: one request at a time\<close>

lemma one_job_frame:
  assumes "one_job_rt s" "recorders_rt s' = recorders_rt s"
    "mediaRecorderRef_rt s' = mediaRecorderRef_rt s" "isRecordingRef_rt s' = isRecordingRef_rt s"
    "awaiting_rt s' = awaiting_rt s"
  shows "one_job_rt s'"
  using assms by (simp add: one_job_rt_def)

lemma one_job_active:
  assumes "one_job_rt s" "i < length (recorders_rt s)" "active (recorders_rt s ! i)"
  shows "mediaRecorderRef_rt s = Some i" "isRecordingRef_rt s" "awaiting_rt s = []"
  using assms unfolding one_job_rt_def by blast+

lemma one_job_idle:
  assumes "one_job_rt s" "\<not> isRecordingRef_rt s"
  shows "awaiting_rt s = []"
    and "\<And>i. i < length (recorders_rt s) \<Longrightarrow> \<not> active (recorders_rt s ! i)"
proof -
  from assms show "awaiting_rt s = []"
    unfolding one_job_rt_def by blast
  show "\<not> active (recorders_rt s ! i)" if "i < length (recorders_rt s)" for i
    using one_job_active(2) [OF assms(1) that] assms(2) by blast
qed

lemma one_jobI:
  assumes "\<And>i. i < length (recorders_rt s) \<Longrightarrow> mr_stopping (recorders_rt s ! i)
             \<Longrightarrow> mr_state (recorders_rt s ! i) = Inactive"
    and "\<And>i. i < length (recorders_rt s) \<Longrightarrow> active (recorders_rt s ! i)
             \<Longrightarrow> mediaRecorderRef_rt s = Some i \<and> isRecordingRef_rt s \<and> awaiting_rt s = []"
    and "awaiting_rt s \<noteq> [] \<Longrightarrow> isRecordingRef_rt s"
    and "length (awaiting_rt s) \<le> 1"
  shows "one_job_rt s"
  using assms unfolding one_job_rt_def by blast

lemma one_job_stopping:
  assumes "one_job_rt s" "i < length (recorders_rt s)" "mr_stopping (recorders_rt s ! i)"
  shows "mr_state (recorders_rt s ! i) = Inactive"
  using assms unfolding one_job_rt_def by blast

lemma one_job_queue:
  assumes "one_job_rt s"
  shows "awaiting_rt s \<noteq> [] \<Longrightarrow> isRecordingRef_rt s" "length (awaiting_rt s) \<le> 1"
  using assms unfolding one_job_rt_def by blast+

lemma one_job_startRecording:
  assumes inv: "one_job_rt s" and idle: "\<not> isRecordingRef_rt s"
  shows "one_job_rt (startRecording_rt now s)"
proof -
  note a = one_job_idle [OF inv idle]
  let ?s' = "s\<lparr>isProcessing_rt := True,
      recorders_rt := recorders_rt s @ [mr_started now],
      mediaRecorderRef_rt := Some (length (recorders_rt s)),
      chunksRef_rt := [], recordingStartTimeRef_rt := Some now, isRecordingRef_rt := True\<rparr>"
  have new: "one_job_rt ?s'"
  proof (rule one_jobI)
    fix i
    assume i: "i < length (recorders_rt ?s')"
    show "mr_state (recorders_rt ?s' ! i) = Inactive" if "mr_stopping (recorders_rt ?s' ! i)"
    proof (cases "i < length (recorders_rt s)")
      case True
      with that one_job_stopping [OF inv True] show ?thesis by (simp add: nth_append)
    next
      case False
      with i that show ?thesis by (simp add: nth_append mr_started_def)
    qed
    show "mediaRecorderRef_rt ?s' = Some i \<and> isRecordingRef_rt ?s' \<and> awaiting_rt ?s' = []"
      if "active (recorders_rt ?s' ! i)"
    proof (cases "i < length (recorders_rt s)")
      case True
      with that a(2) [OF True] show ?thesis by (simp add: nth_append)
    next
      case False
      with i a(1) show ?thesis by simp
    qed
  next
    show "isRecordingRef_rt ?s'" by simp
    show "length (awaiting_rt ?s') \<le> 1" using a(1) by simp
  qed
  have err: "one_job_rt (s\<lparr>error_rt := Some ''Failed to start recording'', isProcessing_rt := False\<rparr>)"
    by (rule one_job_frame [OF inv]) simp_all
  from new err inv show ?thesis
    by (simp add: startRecording_rt_def)
qed

lemma one_job_stopRecording:
  assumes inv: "one_job_rt s"
  shows "one_job_rt (stopRecording_rt s)"
proof (cases "current_state (recorders_rt s) (mediaRecorderRef_rt s) = Some Recording")
  case False
  with inv show ?thesis by (simp add: stopRecording_rt_def)
next
  case True
  then obtain r where ref: "mediaRecorderRef_rt s = Some r" and r: "r < length (recorders_rt s)"
    and st: "mr_state (recorders_rt s ! r) = Recording"
    by (auto simp: current_state_def split: option.splits if_splits)
  from st have act: "active (recorders_rt s ! r)" by (simp add: active_def)
  note a = one_job_active [OF inv r act]
  let ?s' = "s\<lparr>recorders_rt := (recorders_rt s)[r := mr_stop (recorders_rt s ! r)]\<rparr>"
  have "one_job_rt ?s'"
  proof (rule one_jobI)
    fix i
    assume i: "i < length (recorders_rt ?s')"
    then have i': "i < length (recorders_rt s)" by simp
    show "mr_state (recorders_rt ?s' ! i) = Inactive" if "mr_stopping (recorders_rt ?s' ! i)"
    proof (cases "i = r")
      case True
      with r show ?thesis by (simp add: mr_stop_def)
    next
      case False
      with that one_job_stopping [OF inv i'] show ?thesis by simp
    qed
    show "mediaRecorderRef_rt ?s' = Some i \<and> isRecordingRef_rt ?s' \<and> awaiting_rt ?s' = []"
      if "active (recorders_rt ?s' ! i)"
    proof (cases "i = r")
      case True
      with a show ?thesis by simp
    next
      case False
      with that one_job_active [OF inv i'] show ?thesis by simp
    qed
  next
    show "isRecordingRef_rt ?s'" using a(2) by simp
    show "length (awaiting_rt ?s') \<le> 1" using a(3) by simp
  qed
  with True ref show ?thesis by (simp add: stopRecording_rt_def)
qed

lemma one_job_onstop:
  assumes inv: "one_job_rt s" and r: "r < length (recorders_rt s)"
    and st: "mr_stopping (recorders_rt s ! r)"
  shows "one_job_rt
           (onstop_rt now
              (s\<lparr>recorders_rt := (recorders_rt s)[r := mr_stopped (recorders_rt s ! r)]\<rparr>))"
proof -
  let ?recs = "(recorders_rt s)[r := mr_stopped (recorders_rt s ! r)]"
  have act: "active (recorders_rt s ! r)" using st by (simp add: active_def)
  note a = one_job_active [OF inv r act]
  have inact: "mr_state (recorders_rt s ! r) = Inactive"
    using inv r st by (simp add: one_job_rt_def)
  have idle: "\<not> active (?recs ! i)" if "i < length (recorders_rt s)" for i
  proof (cases "i = r")
    case True
    with r inact show ?thesis by (simp add: active_def mr_stopped_def)
  next
    case False
    with one_job_active(1) [OF inv that] a(1) show ?thesis by auto
  qed
  have stop: "mr_stopping (?recs ! i) \<longrightarrow> mr_state (?recs ! i) = Inactive"
    if "i < length (recorders_rt s)" for i
    using idle [OF that] by (cases "mr_state (?recs ! i)") (simp_all add: active_def)
  from idle stop a show ?thesis
    by (simp add: one_job_rt_def onstop_rt_def onstop_finally_rt_def Let_def)
qed

lemma one_job_settled:
  assumes inv: "one_job_rt s"
  shows "one_job_rt (settled_rt now out s)"
proof (cases "awaiting_rt s")
  case Nil
  with inv show ?thesis by (simp add: settled_rt_def)
next
  case (Cons b bs)
  with inv have bs: "bs = []" by (simp add: one_job_rt_def)
  have idle: "\<not> active (recorders_rt s ! i)" if "i < length (recorders_rt s)" for i
    using one_job_active(3) [OF inv that] Cons by auto
  have stop: "mr_stopping (recorders_rt s ! i) \<longrightarrow> mr_state (recorders_rt s ! i) = Inactive"
    if "i < length (recorders_rt s)" for i
    using inv that by (simp add: one_job_rt_def)
  from idle stop Cons bs show ?thesis
    by (cases out) (simp_all add: settled_rt_def onstop_finally_rt_def one_job_rt_def)
qed

lemma one_job_cleanup:
  assumes inv: "one_job_rt s"
  shows "one_job_rt (cleanup_rt s)"
proof -
  have ended: "one_job_rt
      (s'\<lparr>tracksStopped_rt := True, recorders_rt := tracksEnded (recorders_rt s')\<rparr>)"
    if "one_job_rt s'" for s'
    using that
    by (auto simp: one_job_rt_def nth_tracksEnded active_def mr_stop_def)
  have a: "one_job_rt (s\<lparr>subscribed_rt := False\<rparr>)"
    by (rule one_job_frame [OF inv]) simp_all
  have rel: "one_job_rt (s'\<lparr>cobraReleased_rt := True\<rparr>)" if "one_job_rt s'" for s'
    by (rule one_job_frame [OF that]) simp_all
  from inv a ended rel show ?thesis
    by (simp add: cleanup_rt_def Let_def)
qed

lemma one_job_step:
  assumes "one_job_rt s"
  shows "one_job_rt (step_rt te s)"
proof (cases te)
  case (Pair now ev)
  show ?thesis
  proof (cases ev)
    case (Probability p)
    show ?thesis
    proof (cases "p \<ge> VOICE_PROBABILITY_THRESHOLD_rt")
      case True
      let ?s1 = "case silenceTimeoutRef_rt s of None \<Rightarrow> s
        | Some h \<Rightarrow> s\<lparr>timers_rt := clearTimer h (timers_rt s), silenceTimeoutRef_rt := None\<rparr>"
      have s1: "one_job_rt ?s1"
        by (rule one_job_frame [OF assms]) (simp_all split: option.splits)
      have "isRecordingRef_rt ?s1 = isRecordingRef_rt s"
        by (simp split: option.splits)
      with s1 one_job_startRecording [of ?s1 now] True Pair Probability show ?thesis
        by (auto simp: step_rt_def handleVoiceProbability_rt_def handleVoiceDetected_rt_def
            Let_def)
    next
      case False
      with Pair Probability show ?thesis
        by (auto intro!: one_job_frame [OF assms]
            simp: step_rt_def handleVoiceProbability_rt_def handleSilenceDetected_rt_def)
    qed
  next
    case (DataAvailable r b)
    with Pair show ?thesis
      by (auto intro!: one_job_frame [OF assms] simp: step_rt_def ondataavailable_rt_def)
  next
    case (RecorderStop r)
    with Pair assms one_job_onstop [OF assms, of r] show ?thesis
      by (simp add: step_rt_def)
  next
    case (TimerFired h)
    have "one_job_rt (s\<lparr>timers_rt := clearTimer h (timers_rt s)\<rparr>)"
      by (rule one_job_frame [OF assms]) simp_all
    from one_job_stopRecording [OF this]
    have "one_job_rt (silenceTimeout_rt (s\<lparr>timers_rt := clearTimer h (timers_rt s)\<rparr>))"
      unfolding silenceTimeout_rt_def by (rule one_job_frame) simp_all
    with Pair TimerFired assms show ?thesis
      by (simp add: step_rt_def)
  next
    case (StartListening ok)
    with Pair show ?thesis
      by (auto intro!: one_job_frame [OF assms] simp: step_rt_def startListening_rt_def)
  next
    case (StopListening ok)
    have a: "one_job_rt (s\<lparr>subscribed_rt := False\<rparr>)"
      by (rule one_job_frame [OF assms]) simp_all
    have b: "one_job_rt (stopRecording_rt (s\<lparr>subscribed_rt := False\<rparr>)
        \<lparr>isListeningRef_rt := False, error_rt := None\<rparr>)"
      by (rule one_job_frame [OF one_job_stopRecording [OF a]]) simp_all
    have c: "one_job_rt (s\<lparr>subscribed_rt := False, isListeningRef_rt := False, error_rt := None\<rparr>)"
      by (rule one_job_frame [OF assms]) simp_all
    have d: "one_job_rt (s\<lparr>error_rt := Some ''Failed to stop listening''\<rparr>)"
      by (rule one_job_frame [OF assms]) simp_all
    from b c d assms Pair StopListening show ?thesis
      by (simp add: step_rt_def stopListening_rt_def Let_def)
  next
    case Unmount
    have "one_job_rt ((cleanup_rt s)\<lparr>unmounted_rt := True\<rparr>)"
      by (rule one_job_frame [OF one_job_cleanup [OF assms]]) simp_all
    with Pair Unmount show ?thesis
      by (simp add: step_rt_def)
  next
    case (Settled out)
    with Pair one_job_settled [OF assms] show ?thesis by (simp add: step_rt_def)
  qed (use Pair assms in \<open>simp_all add: step_rt_def\<close>)
qed

lemma one_job_run:
  assumes "one_job_rt s"
  shows "one_job_rt (run_rt evs s)"
  using assms unfolding run_rt_def
  by (induction evs arbitrary: s) (simp_all add: one_job_step)

text \<open>
  In the awaiting component, whatever the callbacks delivered after initialisation,
  at most one \<open>onstop\<close> handler is suspended at its transcription request: the next
  session cannot start, and so cannot end, before the request has settled.
\<close>

theorem at_most_one_awaiting_rt:
  "length (awaiting_rt (run_rt evs initialized_rt)) \<le> 1"
proof -
  have "one_job_rt initialized_rt"
    by (simp add: one_job_rt_def initialized_rt_def)
  from one_job_run [OF this, of evs] show ?thesis
    by (simp add: one_job_rt_def)
qed

section \<open>Index: the pause timer at teardown\<close>

lemma tracked_frame:
  assumes "timer_tracked_ix s" "timers_ix s' = timers_ix s"
    "pauseTimeoutRef_ix s' = pauseTimeoutRef_ix s" "silenceStartRef_ix s' = silenceStartRef_ix s"
  shows "timer_tracked_ix s'"
  using assms by (simp add: timer_tracked_ix_def)

lemma tracked_cleared:
  assumes "timer_tracked_ix s"
  shows "(case pauseTimeoutRef_ix s of None \<Rightarrow> timers_ix s
          | Some h \<Rightarrow> clearTimer h (timers_ix s)) = []"
proof (cases "pauseTimeoutRef_ix s")
  case None
  with assms have "\<forall>e \<in> set (timers_ix s). False" by (simp add: timer_tracked_ix_def)
  then have "timers_ix s = []" by (cases "timers_ix s") auto
  with None show ?thesis by simp
next
  case (Some h)
  with assms have "clearTimer h (timers_ix s) = []"
    by (auto simp: timer_tracked_ix_def clearTimer_def filter_empty_conv)
  with Some show ?thesis by simp
qed

lemma tracked_handleSpeech:
  assumes "timer_tracked_ix s"
  shows "timer_tracked_ix (handleSpeech_ix s)" "timers_ix (handleSpeech_ix s) = []"
  using tracked_cleared [OF assms]
  by (cases "pauseTimeoutRef_ix s"; simp add: handleSpeech_ix_def timer_tracked_ix_def)+

lemma tracked_stopRecording:
  assumes "timer_tracked_ix s"
  shows "timer_tracked_ix (stopRecording_ix s)"
  by (rule tracked_frame [OF assms]) (simp_all add: stopRecording_ix_def)

lemma tracked_startRecording:
  assumes "timer_tracked_ix s"
  shows "timer_tracked_ix (startRecording_ix now s)"
  by (rule tracked_frame [OF assms]) (simp_all add: startRecording_ix_def)

lemma tracked_handlePause:
  assumes inv: "timer_tracked_ix s" and now: "now \<noteq> 0"
  shows "timer_tracked_ix (handlePause_ix now s)"
proof (cases "silenceStartRef_ix s = None \<or> silenceStartRef_ix s = Some 0")
  case True
  with inv have "timers_ix s = []" by (auto simp: timer_tracked_ix_def)
  with True now show ?thesis
    by (simp add: handlePause_ix_def timer_tracked_ix_def)
next
  case False
  with inv show ?thesis by (auto simp: handlePause_ix_def)
qed

lemma tracked_clear:
  assumes "timer_tracked_ix s"
  shows "timer_tracked_ix (s\<lparr>timers_ix := clearTimer h (timers_ix s)\<rparr>)"
  using assms by (auto simp: timer_tracked_ix_def clearTimer_def filter_empty_conv)

lemma tracked_pauseTimeout:
  assumes "timer_tracked_ix s"
  shows "timer_tracked_ix (pauseTimeout_ix now s)"
proof -
  have "timer_tracked_ix (s\<lparr>isLongPauseRef_ix := True\<rparr>)"
    by (rule tracked_frame [OF assms]) simp_all
  from tracked_stopRecording [OF this] assms show ?thesis
    by (simp add: pauseTimeout_ix_def Let_def)
qed

lemma tracked_stopListening:
  assumes "timer_tracked_ix s"
  shows "timers_ix (stopListening_ix s) = []" "timer_tracked_ix (stopListening_ix s)"
proof -
  let ?s1 = "(if streamRef_ix s
      then s\<lparr>tracksStopped_ix := True, recorders_ix := tracksEnded (recorders_ix s)\<rparr>
      else s)"
  let ?s2 = "(if vadRef_ix ?s1 then ?s1\<lparr>vadDestroyed_ix := True\<rparr> else ?s1)"
  have s2: "timer_tracked_ix ?s2"
    by (rule tracked_frame [OF assms]) simp_all
  from tracked_cleared [OF s2] show a: "timers_ix (stopListening_ix s) = []"
    by (cases "pauseTimeoutRef_ix ?s2") (simp_all add: stopListening_ix_def Let_def)
  then show "timer_tracked_ix (stopListening_ix s)"
    by (simp add: timer_tracked_ix_def)
qed

lemma tracked_onstop:
  assumes "timer_tracked_ix s"
  shows "timer_tracked_ix (onstop_ix r now s)"
  by (rule tracked_frame [OF assms]) (simp_all add: onstop_ix_def saveRecording_ix_def Let_def)

lemma tracked_rendered:
  assumes "timer_tracked_ix s'"
  shows "timer_tracked_ix (afterRender_ix pk (commit_ix s s'))"
  using assms tracked_stopListening(2) [of "commit_ix s s'"]
  by (simp add: afterRender_ix_def)

lemma tracked_step:
  assumes inv: "timer_tracked_ix s" and t: "fst te \<noteq> 0"
  shows "timer_tracked_ix (step_ix te s)"
proof (cases te)
  case (Pair now ev)
  show ?thesis
  proof (cases ev)
    case VoiceStart
    from tracked_handleSpeech(1) [OF inv] tracked_startRecording [OF tracked_handleSpeech(1) [OF inv]]
    have "timer_tracked_ix (onVoiceStart_ix now s)"
      by (simp add: onVoiceStart_ix_def Let_def)
    with Pair VoiceStart show ?thesis by (simp add: step_ix_def tracked_rendered)
  next
    case VoiceStop
    with Pair t tracked_handlePause [OF inv, of now] show ?thesis
      by (simp add: step_ix_def onVoiceStop_ix_def tracked_rendered)
  next
    case (DataAvailable r b)
    have "timer_tracked_ix (ondataavailable_ix b s)"
      by (rule tracked_frame [OF inv]) (simp_all add: ondataavailable_ix_def)
    with Pair DataAvailable show ?thesis
      by (simp add: step_ix_def tracked_rendered)
  next
    case (RecorderStop r)
    have "timer_tracked_ix (s\<lparr>recorders_ix := (recorders_ix s)[r := mr_stopped (recorders_ix s ! r)]\<rparr>)"
      by (rule tracked_frame [OF inv]) simp_all
    from tracked_onstop [OF this, of r now]
    have a: "timer_tracked_ix (onstop_ix r now
        (s\<lparr>recorders_ix := (recorders_ix s)[r := mr_stopped (recorders_ix s ! r)]\<rparr>))" .
    from a Pair RecorderStop inv show ?thesis
      by (simp add: step_ix_def tracked_rendered)
  next
    case (TimerFired h)
    from tracked_pauseTimeout [OF tracked_clear [OF inv]] Pair TimerFired inv show ?thesis
      by (simp add: step_ix_def tracked_rendered)
  next
    case (StartListening ok)
    have "timer_tracked_ix (startListening_ix ok s)"
      by (rule tracked_frame [OF inv]) (simp_all add: startListening_ix_def)
    with Pair StartListening inv show ?thesis
      by (simp add: step_ix_def tracked_rendered)
  next
    case (StopListening ok)
    with Pair tracked_stopListening(2) [OF inv] inv show ?thesis
      by (simp add: step_ix_def tracked_rendered)
  next
    case Unmount
    have "timer_tracked_ix ((stopListening_ix s)\<lparr>unmounted_ix := True\<rparr>)"
      by (rule tracked_frame [OF tracked_stopListening(2) [OF inv]]) simp_all
    with Pair Unmount show ?thesis by (simp add: step_ix_def tracked_rendered)
  qed (use Pair inv in \<open>simp_all add: step_ix_def afterRender_ix_def\<close>)
qed

lemma tracked_run:
  assumes "timer_tracked_ix s" "\<forall>te \<in> set evs. fst te \<noteq> 0"
  shows "timer_tracked_ix (run_ix evs s)"
  using assms unfolding run_ix_def
  by (induction evs arbitrary: s) (simp_all add: tracked_step)

lemma timers_rendered:
  assumes "timers_ix s' = []"
  shows "timers_ix (memoise_ix b (afterRender_ix pk (commit_ix s s'))) = []"
  using assms
  by (simp add: memoise_ix_def afterRender_ix_def stopListening_ix_def Let_def clearTimer_def
      split: option.splits)

text \<open>
  In Index, after any callbacks (delivered at times other than 0, the one time
  \<open>handlePause\<close> takes for no time at all), \<open>stopListening\<close> leaves no timer pending,
  whether the button calls it or the unmount, and a timer callback that the event
  loop would look for after the unmount changes nothing.
\<close>

theorem stopListening_cancels_timer_ix:
  assumes "\<forall>te \<in> set evs. fst te \<noteq> 0"
  shows "timers_ix (stopListening_ix (run_ix evs mounted_ix)) = []
       \<and> timers_ix (step_ix (t, Unmount) (run_ix evs mounted_ix)) = []
       \<and> step_ix (t', TimerFired h) (step_ix (t, Unmount) (run_ix evs mounted_ix))
           = step_ix (t, Unmount) (run_ix evs mounted_ix)"
proof -
  have "timer_tracked_ix mounted_ix"
    by (simp add: timer_tracked_ix_def mounted_ix_def)
  from tracked_run [OF this assms]
  have inv: "timer_tracked_ix (run_ix evs mounted_ix)" .
  note a = tracked_stopListening(1) [OF inv]
  have b: "timers_ix (step_ix (t, Unmount) (run_ix evs mounted_ix)) = []"
    using a by (simp add: step_ix_def timers_rendered)
  have c: "step_ix (t', TimerFired h) s = s" if "timers_ix s = []" for s
    using that by (simp add: step_ix_def due_def afterRender_ix_def memoise_ix_def)
  from a b c [OF b] show ?thesis by simp
qed

theorem stopListening_cancels_timer_ix_witness:
  "timers_ix (run_ix (pause_resume_ix @ [(4000, VoiceStop)]) mounted_ix) = [(2, 6000)]
   \<and> isListening_ix (run_ix (pause_resume_ix @ [(4000, VoiceStop)]) mounted_ix)
   \<and> timers_ix (step_ix (4500, StopListening True)
        (run_ix (pause_resume_ix @ [(4000, VoiceStop)]) mounted_ix)) = []
   \<and> timers_ix (step_ix (4500, Unmount)
        (run_ix (pause_resume_ix @ [(4000, VoiceStop)]) mounted_ix)) = []"
proof -
  have t: "\<forall>te \<in> set (pause_resume_ix @ [(4000, VoiceStop)]). fst te \<noteq> 0"
    by (simp add: pause_resume_ix_def)
  have a: "timers_ix (run_ix (pause_resume_ix @ [(4000, VoiceStop)]) mounted_ix) = [(2, 6000)]"
    "isListening_ix (run_ix (pause_resume_ix @ [(4000, VoiceStop)]) mounted_ix)"
    by (simp_all add: pause_resume_ix_def ix_eval)
  have b: "timers_ix (step_ix (4500, StopListening True)
        (run_ix (pause_resume_ix @ [(4000, VoiceStop)]) mounted_ix)) = []"
    by (simp add: pause_resume_ix_def ix_eval)
  from stopListening_cancels_timer_ix [OF t, of 4500] a b show ?thesis
    by simp
qed

end
